theory Spec2Isabelle
  imports Main "HOL-Library.Word" "HOL-Library.Monad_Syntax"
begin

section \<open>Go values: integers, slices, errors\<close>

text \<open>
  The vector of \<^verbatim>\<open>vector.go\<close> stores Go \<^verbatim>\<open>int\<close> values. On the 64-bit
  platforms Go's \<^verbatim>\<open>int\<close> is a 64-bit two's complement integer whose \<^verbatim>\<open>+\<close> and
  \<^verbatim>\<open>*\<close> wrap around, so the stored items are 64-bit words.

  Indices, lengths and capacities are Go \<^verbatim>\<open>int\<close>s as well. They are compared and
  incremented only (\<^verbatim>\<open>index < 0\<close>, \<^verbatim>\<open>v.len()-1\<close>, \<^verbatim>\<open>v.len()+1\<close>), on
  values bounded by the size of an allocated array, so they are modelled as
  mathematical integers. The one product on them, \<^verbatim>\<open>cap(v.items) * v.multiplier\<close>,
  has an arbitrary factor and wraps; \<open>int64\<close> writes that wrap-around out.
\<close>

type_synonym elem = "64 word"

definition int64 :: "int \<Rightarrow> int" where
  "int64 x = sint (word_of_int x :: 64 word)"

datatype error = ErrInvalidIndex | ErrSizeDiffers

text \<open>
  A slice \<^verbatim>\<open>[]int\<close> is its visible elements and the capacity of its backing array.
  Go keeps \<open>length \<le> capacity\<close> for every slice value (\<open>wf_slice\<close>).
  \<open>len\<close> and \<open>cap\<close> are the built-ins of the same name, \<open>slice_to s i\<close> is
  \<^verbatim>\<open>s[:i]\<close>, \<open>slice_from s i\<close> is \<^verbatim>\<open>s[i:]\<close>, \<open>index_s s i\<close> is the read
  \<^verbatim>\<open>s[i]\<close> with \<open>None\<close> for the run-time panic of an index out of range, and
  \<open>set_s s i x\<close> is the write \<^verbatim>\<open>s[i] = x\<close>.
\<close>

record slice =
  elems :: "elem list"
  capacity :: nat

definition wf_slice :: "slice \<Rightarrow> bool" where
  "wf_slice s = (length (elems s) \<le> capacity s)"

definition len :: "slice \<Rightarrow> int" where
  "len s = int (length (elems s))"

definition cap :: "slice \<Rightarrow> int" where
  "cap s = int (capacity s)"

text \<open>
  \<open>make_slice n\<close> is \<^verbatim>\<open>make([]int, 0, n)\<close>. The runtime's \<^verbatim>\<open>makeslice\<close> panics
  (\<^verbatim>\<open>makeslice: cap out of range\<close>, the value \<open>None\<close>) when the capacity is
  negative or the array of \<open>n\<close> eight-byte items is larger than \<^verbatim>\<open>maxAlloc\<close>,
  which is \<open>2 ^ 48\<close> bytes on the 64-bit platforms with 48-bit heap addresses
  (linux/amd64 among them): the largest capacity it accepts is \<open>2 ^ 45\<close>.
  A capacity in that range is taken to be allocated; a machine without that much
  memory ends the process with a fatal error, which is outside this model.
\<close>

definition maxAlloc :: int where
  "maxAlloc = 2 ^ 48"

definition maxSliceCap :: int where
  "maxSliceCap = maxAlloc div 8"

definition make_slice :: "int \<Rightarrow> slice option" where
  "make_slice n =
     (if n < 0 \<or> maxSliceCap < n then None
      else Some \<lparr>elems = [], capacity = nat n\<rparr>)"

definition slice_to :: "slice \<Rightarrow> int \<Rightarrow> slice" where
  "slice_to s i = s\<lparr>elems := take (nat i) (elems s)\<rparr>"

definition slice_from :: "slice \<Rightarrow> int \<Rightarrow> slice" where
  "slice_from s i = \<lparr>elems = drop (nat i) (elems s), capacity = capacity s - nat i\<rparr>"

definition index_s :: "slice \<Rightarrow> int \<Rightarrow> elem option" where
  "index_s s i = (if 0 \<le> i \<and> i < len s then Some (elems s ! nat i) else None)"

definition set_s :: "slice \<Rightarrow> int \<Rightarrow> elem \<Rightarrow> slice" where
  "set_s s i x = s\<lparr>elems := (elems s)[nat i := x]\<rparr>"

text \<open>
  The built-in \<^verbatim>\<open>append(s, xs...)\<close> writes behind the last element when the
  capacity suffices and keeps the capacity; otherwise it allocates an array that is
  large enough. The Go runtime may round that allocation up; the model takes the
  needed length. Every call of \<^verbatim>\<open>append\<close> on \<^verbatim>\<open>v.items\<close> in this program
  comes after the capacity was made sufficient, so that branch is never taken from a
  well-formed vector (lemmas \<open>append_v_wf\<close>, \<open>Add_valid_wf\<close> and
  \<open>remove_v_valid\<close> below).
\<close>

definition go_append :: "slice \<Rightarrow> elem list \<Rightarrow> slice" where
  "go_append s xs =
     (if length (elems s) + length xs \<le> capacity s
      then s\<lparr>elems := elems s @ xs\<rparr>
      else \<lparr>elems = elems s @ xs, capacity = length (elems s) + length xs\<rparr>)"

text \<open>
  \<^verbatim>\<open>copy(s[d:], s[f:])\<close> inside one slice: the built-in copies
  \<open>min (len dst) (len src)\<close> elements and behaves as if the source were read before
  anything is written.
\<close>

definition copy_within :: "slice \<Rightarrow> int \<Rightarrow> int \<Rightarrow> slice" where
  "copy_within s d f =
     (let xs = elems s;
          n = min (length xs - nat d) (length xs - nat f)
      in s\<lparr>elems := take (nat d) xs @ take n (drop (nat f) xs) @ drop (nat d + n) xs\<rparr>)"

section \<open>The vector\<close>

text \<open>
  The struct \<^verbatim>\<open>Vector\<close>. Its mutex is not modelled: every method runs its body
  under the lock, and the model is the sequential behaviour of those bodies. A method
  with a pointer receiver takes the vector as its last argument, and returns the new
  vector when it writes to it.
\<close>

record Vector =
  multiplier :: int
  items :: slice

definition wf :: "Vector \<Rightarrow> bool" where
  "wf v = wf_slice (items v)"

definition defaultCapacity :: int where
  "defaultCapacity = 10"

definition defaultMultiplier :: int where
  "defaultMultiplier = 2"

text \<open>
  A function that reaches \<^verbatim>\<open>make\<close> returns an option, \<open>None\<close> being the panic
  of \<^verbatim>\<open>make\<close>. In each of the mutating methods that can grow the vector
  (\<^verbatim>\<open>Add\<close>, \<^verbatim>\<open>Append\<close>, \<^verbatim>\<open>AppendAll\<close>) the call of \<^verbatim>\<open>make\<close>, in
  \<^verbatim>\<open>increaseCapTo\<close>, comes before the first write to \<^verbatim>\<open>v.items\<close>, so the
  vector at the panic is the vector before the call.
\<close>

definition NewWithCap :: "int \<Rightarrow> int \<Rightarrow> Vector option" where
  "NewWithCap c m = do {
     s \<leftarrow> make_slice c;
     Some \<lparr>multiplier = m, items = s\<rparr>
   }"

definition New :: "Vector option" where
  "New = NewWithCap defaultCapacity defaultMultiplier"

definition len_v :: "Vector \<Rightarrow> int" where
  "len_v v = len (items v)"

definition increaseCapTo :: "int \<Rightarrow> Vector \<Rightarrow> Vector option" where
  "increaseCapTo newCap v =
     (if newCap \<le> cap (items v) then Some v
      else do {
        items' \<leftarrow> make_slice newCap;
        Some (v\<lparr>items := go_append items' (elems (items v))\<rparr>)
      })"

definition increaseCapToAtLest :: "int \<Rightarrow> Vector \<Rightarrow> Vector option" where
  "increaseCapToAtLest targetCap v =
     (if targetCap \<le> cap (items v) then Some v
      else
        let newCap = int64 (cap (items v) * multiplier v);
            newCap = (if newCap < targetCap then targetCap else newCap)
        in increaseCapTo newCap v)"

definition checkIndex :: "int \<Rightarrow> Vector \<Rightarrow> error option" where
  "checkIndex index v =
     (if index < 0 \<or> index > len_v v - 1 then Some ErrInvalidIndex else None)"

definition append_v :: "elem list \<Rightarrow> Vector \<Rightarrow> Vector option" where
  "append_v xs v = do {
     v \<leftarrow> increaseCapToAtLest (len_v v + int (length xs)) v;
     Some (v\<lparr>items := go_append (items v) xs\<rparr>)
   }"

text \<open>
  \<^verbatim>\<open>Add\<close> returns its error beside the vector it leaves; the outer option is the
  panic of \<^verbatim>\<open>make\<close>.
\<close>

definition Add :: "int \<Rightarrow> elem \<Rightarrow> Vector \<Rightarrow> (error option \<times> Vector) option" where
  "Add index item v =
     (if index = 0 \<and> len_v v = 0 then do {
        v \<leftarrow> append_v [item] v;
        Some (None, v)
      }
      else
        case checkIndex index v of
          Some err \<Rightarrow> Some (Some err, v)
        | None \<Rightarrow> do {
            v \<leftarrow> increaseCapToAtLest (len_v v + 1) v;
            let v = v\<lparr>items := go_append (items v) [0]\<rparr>;
            let v = v\<lparr>items := copy_within (items v) (index + 1) index\<rparr>;
            let v = v\<lparr>items := set_s (items v) index item\<rparr>;
            Some (None, v)
          })"

definition Set_v :: "int \<Rightarrow> elem \<Rightarrow> Vector \<Rightarrow> error option \<times> Vector" where
  "Set_v index item v =
     (case checkIndex index v of
        Some err \<Rightarrow> (Some err, v)
      | None \<Rightarrow> (None, v\<lparr>items := set_s (items v) index item\<rparr>))"

definition Append :: "elem \<Rightarrow> Vector \<Rightarrow> Vector option" where
  "Append item v = append_v [item] v"

definition AppendAll :: "elem list \<Rightarrow> Vector \<Rightarrow> Vector option" where
  "AppendAll xs v = append_v xs v"

text \<open>
  \<^verbatim>\<open>remove\<close> has no check of its own: \<^verbatim>\<open>v.items[index]\<close> panics out of range
  (\<open>None\<close>). Behind that read both slice expressions are in range, and
  \<^verbatim>\<open>append\<close> moves the tail one place down inside the same array.
\<close>

definition remove_v :: "int \<Rightarrow> Vector \<Rightarrow> (elem \<times> Vector) option" where
  "remove_v index v = do {
     r \<leftarrow> index_s (items v) index;
     Some (r, v\<lparr>items := go_append (slice_to (items v) index)
                            (elems (slice_from (items v) (index + 1)))\<rparr>)
   }"

text \<open>The results \<^verbatim>\<open>(r int, err error)\<close> start as \<open>0\<close> and \<^verbatim>\<open>nil\<close>.\<close>

definition Remove :: "int \<Rightarrow> Vector \<Rightarrow> ((elem \<times> error option) \<times> Vector) option" where
  "Remove index v =
     (case checkIndex index v of
        Some err \<Rightarrow> Some ((0, Some err), v)
      | None \<Rightarrow> do { (r, v') \<leftarrow> remove_v index v; Some ((r, None), v') })"

definition Peek :: "int \<Rightarrow> Vector \<Rightarrow> elem \<times> error option" where
  "Peek index v =
     (case checkIndex index v of
        Some err \<Rightarrow> (0, Some err)
      | None \<Rightarrow> (elems (items v) ! nat index, None))"

definition Len :: "Vector \<Rightarrow> int" where
  "Len v = len_v v"

definition Cap :: "Vector \<Rightarrow> int" where
  "Cap v = cap (items v)"

definition Clear :: "Vector \<Rightarrow> Vector" where
  "Clear v = v\<lparr>items := slice_to (items v) 0\<rparr>"

text \<open>
  \<^verbatim>\<open>Slice\<close> appends every item to a result that starts as the \<^verbatim>\<open>nil\<close> slice;
  the result is modelled by its elements, \<^verbatim>\<open>nil\<close> being the empty list.
\<close>

definition Slice :: "Vector \<Rightarrow> elem list" where
  "Slice v = fold (\<lambda>item r. r @ [item]) (elems (items v)) []"

text \<open>
  \<^verbatim>\<open>Clone\<close> returns a pointer, \<open>None\<close> being \<^verbatim>\<open>nil\<close>. Its named result
  \<^verbatim>\<open>r\<close> starts as \<^verbatim>\<open>nil\<close>. Inside the callback \<^verbatim>\<open>r := NewWithCap(...)\<close>
  declares a second variable \<^verbatim>\<open>r\<close>, local to the callback (\<open>r_local\<close>); the copy
  is built in it, and the named result is what is returned. The outer option is the
  panic of \<^verbatim>\<open>make\<close>, which an existing vector never meets here: the capacity
  handed to \<^verbatim>\<open>NewWithCap\<close> is that of \<^verbatim>\<open>v.items\<close>, and it holds the items.
\<close>

definition Clone :: "Vector \<Rightarrow> Vector option option" where
  "Clone v = do {
     let r = None;
     r_local \<leftarrow> NewWithCap (cap (items v)) (multiplier v);
     r_local \<leftarrow> append_v (elems (items v)) r_local;
     Some r
   }"

text \<open>
  The callbacks of \<^verbatim>\<open>each\<close>, \<^verbatim>\<open>Any\<close> and \<^verbatim>\<open>All\<close> are Go closures: they
  may write to variables of their caller (the tests collect the visited items that
  way). Such a callback takes and returns the caller's state \<open>'s\<close>; the loop stops
  when it answers \<open>False\<close>. \<open>each_from i\<close> is the \<^verbatim>\<open>range\<close> loop from index
  \<open>i\<close> on.
\<close>

fun each_from :: "nat \<Rightarrow> (int \<Rightarrow> elem \<Rightarrow> 's \<Rightarrow> bool \<times> 's) \<Rightarrow> elem list \<Rightarrow> 's \<Rightarrow> 's" where
  "each_from i cb [] s = s"
| "each_from i cb (item # rest) s =
     (case cb (int i) item s of
        (continue, s') \<Rightarrow> if \<not> continue then s' else each_from (Suc i) cb rest s')"

definition each :: "(int \<Rightarrow> elem \<Rightarrow> 's \<Rightarrow> bool \<times> 's) \<Rightarrow> Vector \<Rightarrow> 's \<Rightarrow> 's" where
  "each cb v s = each_from 0 cb (elems (items v)) s"

definition Each :: "(int \<Rightarrow> elem \<Rightarrow> 's \<Rightarrow> bool \<times> 's) \<Rightarrow> Vector \<Rightarrow> 's \<Rightarrow> 's" where
  "Each cb v s = each cb v s"

text \<open>
  The result \<^verbatim>\<open>r\<close> of \<^verbatim>\<open>Any\<close> and \<^verbatim>\<open>All\<close> starts as \<^verbatim>\<open>false\<close> and is
  written by the closure handed to \<^verbatim>\<open>each\<close>: the closure's state is \<open>r\<close>
  together with the state \<open>u\<close> of the user's callback.
\<close>

definition Any :: "(elem \<Rightarrow> 'u \<Rightarrow> bool \<times> 'u) \<Rightarrow> Vector \<Rightarrow> 'u \<Rightarrow> bool \<times> 'u" where
  "Any cb v u =
     each (\<lambda>index item (r, u).
             case cb item u of
               (b, u') \<Rightarrow> if b then (False, (True, u')) else (True, (r, u')))
          v (False, u)"

definition All_v :: "(elem \<Rightarrow> 'u \<Rightarrow> bool \<times> 'u) \<Rightarrow> Vector \<Rightarrow> 'u \<Rightarrow> bool \<times> 'u" where
  "All_v cb v u =
     each (\<lambda>index item (r, u).
             let r = (if index = 0 then True else r)
             in case cb item u of
                  (b, u') \<Rightarrow> if \<not> b then (False, (False, u')) else (True, (r, u')))
          v (False, u)"

text \<open>
  The remaining callbacks are modelled as pure functions. In \<^verbatim>\<open>InnerProduct\<close> the
  read \<^verbatim>\<open>other.items[i]\<close> is in range behind the comparison of the lengths.
\<close>

definition InnerProduct :: "Vector \<Rightarrow> Vector \<Rightarrow> elem \<times> error option" where
  "InnerProduct v other =
     (if len_v v \<noteq> len_v other then (0, Some ErrSizeDiffers)
      else (fold (\<lambda>(i, val1) r. r + val1 * elems (items other) ! i)
                 (enumerate 0 (elems (items v))) 0,
            None))"

text \<open>
  The loop of \<^verbatim>\<open>RemoveIf\<close> counts \<^verbatim>\<open>i\<close> from \<^verbatim>\<open>len(v.items) - 1\<close> down to
  \<open>0\<close>; the counter of \<open>RemoveIf_loop\<close> is \<open>i + 1\<close>, so that \<open>0\<close> is the exit
  \<^verbatim>\<open>i < 0\<close>. The read \<^verbatim>\<open>v.items[i]\<close> is against the current slice, which earlier
  removals have shortened.
\<close>

fun RemoveIf_loop :: "(elem \<Rightarrow> bool) \<Rightarrow> nat \<Rightarrow> Vector \<Rightarrow> Vector option" where
  "RemoveIf_loop cb 0 v = Some v"
| "RemoveIf_loop cb (Suc i) v = do {
     item \<leftarrow> index_s (items v) (int i);
     if \<not> cb item then RemoveIf_loop cb i v
     else do {
       (r, v') \<leftarrow> remove_v (int i) v;
       RemoveIf_loop cb i v'
     }
   }"

definition RemoveIf :: "(elem \<Rightarrow> bool) \<Rightarrow> Vector \<Rightarrow> Vector option" where
  "RemoveIf cb v = RemoveIf_loop cb (length (elems (items v))) v"

text \<open>
  \<^verbatim>\<open>Accumulate\<close> builds its result in a new vector \<^verbatim>\<open>r\<close> and only reads
  \<^verbatim>\<open>v\<close>. The error of \<^verbatim>\<open>r.Peek\<close> is dropped, as in the source. The reads
  \<^verbatim>\<open>v.items[0]\<close> and \<^verbatim>\<open>v.items[i]\<close> are behind \<^verbatim>\<open>v.len() == 0\<close> and the
  loop condition \<^verbatim>\<open>i < v.len()\<close>. \<open>Accumulate_body cb v i\<close> is one round of the
  loop \<^verbatim>\<open>for i := 1; i < v.len(); i++\<close>, and \<open>Accumulate_loop\<close> runs the rounds
  for the indices \<open>[1..<len]\<close> in turn, stopping at a panic of \<^verbatim>\<open>r.Append\<close>.
\<close>

definition Accumulate_body :: "(elem \<Rightarrow> elem \<Rightarrow> elem) \<Rightarrow> Vector \<Rightarrow> nat \<Rightarrow> Vector \<Rightarrow> Vector option" where
  "Accumulate_body cb v i r =
     (let (a, _) = Peek (Len r - 1) r;
          b = elems (items v) ! i
      in Append (cb a b) r)"

fun Accumulate_loop :: "(elem \<Rightarrow> elem \<Rightarrow> elem) \<Rightarrow> Vector \<Rightarrow> nat list \<Rightarrow> Vector \<Rightarrow> Vector option" where
  "Accumulate_loop cb v [] r = Some r"
| "Accumulate_loop cb v (i # rest) r = do {
     r \<leftarrow> Accumulate_body cb v i r;
     Accumulate_loop cb v rest r
   }"

definition Accumulate :: "(elem \<Rightarrow> elem \<Rightarrow> elem) \<Rightarrow> Vector \<Rightarrow> Vector option" where
  "Accumulate cb v = do {
     r \<leftarrow> New;
     if len_v v = 0 then Some r
     else do {
       r \<leftarrow> Append (elems (items v) ! 0) r;
       Accumulate_loop cb v [1..<nat (len_v v)] r
     }
   }"

text \<open>
  \<^verbatim>\<open>IndexOf\<close>, \<^verbatim>\<open>Equal\<close> and \<^verbatim>\<open>Reduce\<close>. \<open>IndexOf_from i\<close> is the
  \<^verbatim>\<open>range\<close> loop from index \<open>i\<close> on, with the result \<^verbatim>\<open>r\<close> so far. In
  \<^verbatim>\<open>Equal\<close> the read \<^verbatim>\<open>other.items[i]\<close> is behind the comparison of the
  lengths, and the loop leaves \<^verbatim>\<open>r\<close> false at the first difference.
\<close>

fun IndexOf_from :: "nat \<Rightarrow> elem \<Rightarrow> elem list \<Rightarrow> int \<Rightarrow> int" where
  "IndexOf_from i item [] r = r"
| "IndexOf_from i item (candidate # rest) r =
     (if candidate = item then int i else IndexOf_from (Suc i) item rest r)"

definition IndexOf :: "elem \<Rightarrow> Vector \<Rightarrow> int" where
  "IndexOf item v = IndexOf_from 0 item (elems (items v)) (- 1)"

definition Equal :: "Vector \<Rightarrow> Vector \<Rightarrow> bool" where
  "Equal v other =
     (if len_v v \<noteq> len_v other then False
      else list_all (\<lambda>(i, this). elems (items other) ! i = this)
                    (enumerate 0 (elems (items v))))"

definition Reduce :: "(elem \<Rightarrow> elem \<Rightarrow> elem) \<Rightarrow> Vector \<Rightarrow> elem" where
  "Reduce cb v =
     (if len_v v = 0 then 0
      else fold (\<lambda>i r. cb r (elems (items v) ! i)) [1..<nat (len_v v)]
                (elems (items v) ! 0))"

definition From :: "elem list \<Rightarrow> Vector option" where
  "From xs = do { v \<leftarrow> New; AppendAll xs v }"

text \<open>
  A call of one of the mutating methods, and a program of such calls run from a vector;
  the run stops at a panic. The read-only methods above take the vector and return no
  new one.
\<close>

datatype op =
    OpAdd int elem
  | OpSet int elem
  | OpAppend elem
  | OpAppendAll "elem list"
  | OpRemove int
  | OpRemoveIf "elem \<Rightarrow> bool"
  | OpClear

fun step :: "op \<Rightarrow> Vector \<Rightarrow> Vector option" where
  "step (OpAdd index item) v = map_option snd (Add index item v)"
| "step (OpSet index item) v = Some (snd (Set_v index item v))"
| "step (OpAppend item) v = Append item v"
| "step (OpAppendAll xs) v = AppendAll xs v"
| "step (OpRemove index) v = map_option snd (Remove index v)"
| "step (OpRemoveIf cb) v = RemoveIf cb v"
| "step OpClear v = Some (Clear v)"

fun run :: "op list \<Rightarrow> Vector \<Rightarrow> Vector option" where
  "run [] v = Some v"
| "run (x # xs) v = (case step x v of None \<Rightarrow> None | Some v' \<Rightarrow> run xs v')"

section \<open>Vocabulary of the properties\<close>

text \<open>
  \<open>logged p\<close> is a callback that answers \<open>p item\<close> and records, in its caller's
  state, the items it was called on, in the order of the calls. \<open>upto_first p xs\<close>
  is the part of \<open>xs\<close> up to and including the first item that satisfies \<open>p\<close>
  (all of \<open>xs\<close> when there is none): what a loop over \<open>xs\<close> in index order visits
  when it stops at the first such item.
\<close>

definition logged :: "(elem \<Rightarrow> bool) \<Rightarrow> elem \<Rightarrow> elem list \<Rightarrow> bool \<times> elem list" where
  "logged p item u = (p item, u @ [item])"

definition upto_first :: "(elem \<Rightarrow> bool) \<Rightarrow> elem list \<Rightarrow> elem list" where
  "upto_first p xs = takeWhile (\<lambda>x. \<not> p x) xs @ take 1 (dropWhile (\<lambda>x. \<not> p x) xs)"

text \<open>
  \<open>scan_ok cb xs ys\<close>: \<open>ys\<close> is a running fold of \<open>xs\<close>, its first element that
  of \<open>xs\<close> and each later one \<open>cb\<close> of its predecessor and the item of \<open>xs\<close> at
  the same index.
\<close>

definition scan_ok :: "(elem \<Rightarrow> elem \<Rightarrow> elem) \<Rightarrow> elem list \<Rightarrow> elem list \<Rightarrow> bool" where
  "scan_ok cb xs ys =
     (ys ! 0 = xs ! 0 \<and> (\<forall>i. 1 \<le> i \<and> i < length ys \<longrightarrow> ys ! i = cb (ys ! (i - 1)) (xs ! i)))"

section \<open>Slices and capacity growth\<close>

lemma maxSliceCap_eq: "maxSliceCap = 2 ^ 45"
  by (simp add: maxSliceCap_def maxAlloc_def)

lemma make_slice_eq:
  "make_slice n = (if n < 0 \<or> maxSliceCap < n then None else Some \<lparr>elems = [], capacity = nat n\<rparr>)"
  by (simp add: make_slice_def)

lemma elems_go_append: "elems (go_append s xs) = elems s @ xs"
  by (simp add: go_append_def)

lemma capacity_go_append_fits:
  "length (elems s) + length xs \<le> capacity s \<Longrightarrow> capacity (go_append s xs) = capacity s"
  by (simp add: go_append_def)

lemma wf_slice_go_append: "wf_slice (go_append s xs)"
  by (simp add: go_append_def wf_slice_def)

lemma wf_iff: "wf v \<longleftrightarrow> Len v \<le> Cap v"
  by (simp add: wf_def wf_slice_def Len_def len_v_def len_def Cap_def cap_def)

lemma Len_empty: "Len v = 0 \<longleftrightarrow> elems (items v) = []"
  by (simp add: Len_def len_v_def len_def)

lemma int64_id: "- (2 ^ 63) \<le> x \<Longrightarrow> x < 2 ^ 63 \<Longrightarrow> int64 x = x"
  unfolding int64_def sint_sbintrunc' by (simp add: signed_take_bit_int_eq_self)

lemma int64_0: "int64 0 = 0"
  by (simp add: int64_def)

lemma increaseCapTo_Some:
  "increaseCapTo n v = Some v' \<Longrightarrow>
     elems (items v') = elems (items v) \<and> multiplier v' = multiplier v"
  by (auto simp add: increaseCapTo_def make_slice_def elems_go_append
      split: if_splits bind_splits)

lemma increaseCapTo_wf:
  assumes "wf v"
  shows "increaseCapTo n v =
    (if n \<le> cap (items v) then Some v
     else if maxSliceCap < n then None
     else Some (v\<lparr>items := \<lparr>elems = elems (items v), capacity = nat n\<rparr>\<rparr>))"
proof -
  have "go_append \<lparr>elems = [], capacity = nat n\<rparr> (elems (items v))
        = \<lparr>elems = elems (items v), capacity = nat n\<rparr>" if "\<not> n \<le> cap (items v)"
  proof -
    have "length (elems (items v)) \<le> nat n"
      using that assms by (simp add: wf_def wf_slice_def cap_def)
    then show ?thesis by (simp add: go_append_def)
  qed
  then show ?thesis
    by (auto simp add: increaseCapTo_def make_slice_def cap_def)
qed

lemma increaseCapToAtLest_Some:
  "increaseCapToAtLest n v = Some v' \<Longrightarrow>
     elems (items v') = elems (items v) \<and> multiplier v' = multiplier v"
  by (auto simp add: increaseCapToAtLest_def Let_def dest: increaseCapTo_Some split: if_splits)

lemma increaseCapToAtLest_wf:
  assumes "wf v"
  shows "increaseCapToAtLest n v =
    (if n \<le> cap (items v) then Some v
     else if maxSliceCap < max (int64 (cap (items v) * multiplier v)) n then None
     else Some (v\<lparr>items := \<lparr>elems = elems (items v),
                              capacity = nat (max (int64 (cap (items v) * multiplier v)) n)\<rparr>\<rparr>))"
proof (cases "n \<le> cap (items v)")
  case True
  then show ?thesis by (simp add: increaseCapToAtLest_def)
next
  case False
  let ?g = "max (int64 (cap (items v) * multiplier v)) n"
  have g: "(if int64 (cap (items v) * multiplier v) < n then n
            else int64 (cap (items v) * multiplier v)) = ?g"
    by (simp add: max_def)
  have "\<not> ?g \<le> cap (items v)" using False by simp
  then show ?thesis
    using False
    by (simp add: increaseCapToAtLest_def Let_def g increaseCapTo_wf [OF assms] del: max.bounded_iff)
qed

section \<open>Appending and insertion\<close>

lemma append_v_Some:
  assumes "append_v xs v = Some v'"
  shows "elems (items v') = elems (items v) @ xs" and "multiplier v' = multiplier v" and "wf v'"
proof -
  from assms obtain w where
    w: "increaseCapToAtLest (len_v v + int (length xs)) v = Some w"
    and v': "v' = w\<lparr>items := go_append (items w) xs\<rparr>"
    by (auto simp add: append_v_def split: bind_splits)
  from increaseCapToAtLest_Some [OF w] v'
  show "elems (items v') = elems (items v) @ xs" and "multiplier v' = multiplier v"
    by (simp_all add: elems_go_append)
  show "wf v'" using v' by (simp add: wf_def wf_slice_go_append)
qed

lemma append_v_wf:
  assumes "wf v"
  shows "append_v xs v =
    (if len_v v + int (length xs) \<le> cap (items v)
     then Some (v\<lparr>items := (items v)\<lparr>elems := elems (items v) @ xs\<rparr>\<rparr>)
     else if maxSliceCap < max (int64 (cap (items v) * multiplier v)) (len_v v + int (length xs))
     then None
     else Some (v\<lparr>items := \<lparr>elems = elems (items v) @ xs,
          capacity = nat (max (int64 (cap (items v) * multiplier v)) (len_v v + int (length xs)))\<rparr>\<rparr>))"
proof -
  let ?n = "len_v v + int (length xs)"
  let ?g = "max (int64 (cap (items v) * multiplier v)) ?n"
  have a: "go_append (items v) xs = (items v)\<lparr>elems := elems (items v) @ xs\<rparr>"
    if "?n \<le> cap (items v)"
  proof -
    have "length (elems (items v)) + length xs \<le> capacity (items v)"
      using that by (simp add: len_v_def len_def cap_def)
    then show ?thesis by (simp add: go_append_def)
  qed
  have b: "go_append \<lparr>elems = elems (items v), capacity = nat ?g\<rparr> xs
          = \<lparr>elems = elems (items v) @ xs, capacity = nat ?g\<rparr>"
  proof -
    have "?n \<le> ?g" by simp
    then have "length (elems (items v)) + length xs \<le> nat ?g"
      by (simp add: len_v_def len_def del: max.bounded_iff)
    then show ?thesis by (simp add: go_append_def)
  qed
  show ?thesis
    by (simp add: append_v_def increaseCapToAtLest_wf [OF assms] a b del: max.bounded_iff)
qed

lemma checkIndex_None: "checkIndex i v = None \<longleftrightarrow> 0 \<le> i \<and> i < len_v v"
  by (auto simp add: checkIndex_def)

lemma Add_empty:
  "len_v v = 0 \<Longrightarrow> Add 0 x v = do { v' \<leftarrow> append_v [x] v; Some (None, v') }"
  by (simp add: Add_def)

lemma Add_invalid:
  "i < 0 \<or> len_v v \<le> i \<Longrightarrow> \<not> (i = 0 \<and> len_v v = 0) \<Longrightarrow>
   Add i x v = Some (Some ErrInvalidIndex, v)"
  by (auto simp add: Add_def checkIndex_def)

lemma Add_valid_unfold:
  assumes "0 \<le> i" "i < len_v v"
  shows "Add i x v = do {
            w \<leftarrow> increaseCapToAtLest (len_v v + 1) v;
            Some (None, w\<lparr>items := set_s (copy_within (go_append (items w) [0]) (i + 1) i) i x\<rparr>)
          }"
proof -
  have ne: "\<not> (i = 0 \<and> len_v v = 0)" using assms by auto
  have ci: "checkIndex i v = None" using assms by (simp add: checkIndex_None)
  show ?thesis by (simp add: Add_def ne ci Let_def)
qed

lemma copy_shift:
  assumes "i < length xs"
  shows "(let ys = xs @ [z]; n = min (length ys - Suc i) (length ys - i)
          in take (Suc i) ys @ take n (drop i ys) @ drop (Suc i + n) ys)[i := x]
         = take i xs @ x # drop i xs"
proof -
  have a: "min (length (xs @ [z]) - Suc i) (length (xs @ [z]) - i) = length xs - i"
    using assms by simp
  have b: "take (Suc i) (xs @ [z]) = take i xs @ [xs ! i]"
    using assms by (simp add: take_Suc_conv_app_nth)
  have c: "take (length xs - i) (drop i (xs @ [z])) = drop i xs"
    using assms by simp
  have d: "drop (Suc i + (length xs - i)) (xs @ [z]) = []"
    using assms by simp
  have "(take i xs @ [xs ! i] @ drop i xs)[i := x] = take i xs @ x # drop i xs"
    using assms by (simp add: list_update_append)
  then show ?thesis
    unfolding Let_def a b c d by simp
qed

lemma shifted_elems:
  assumes "0 \<le> i" "nat i < length (elems s)"
  shows "elems (set_s (copy_within (go_append s [0]) (i + 1) i) i x)
         = take (nat i) (elems s) @ x # drop (nat i) (elems s)"
proof -
  have n1: "nat (i + 1) = Suc (nat i)" using assms by simp
  show ?thesis
    using copy_shift [OF assms(2), of 0 x]
    by (simp add: set_s_def copy_within_def elems_go_append n1 Let_def)
qed

lemma shifted_capacity:
  "capacity (set_s (copy_within (go_append s [0]) (i + 1) i) i x) = capacity (go_append s [0])"
  by (simp add: set_s_def copy_within_def Let_def)

lemma Add_valid_Some:
  assumes "0 \<le> i" "i < len_v v" "Add i x v = Some (e, v')"
  shows "e = None"
    and "elems (items v') = take (nat i) (elems (items v)) @ x # drop (nat i) (elems (items v))"
    and "multiplier v' = multiplier v"
proof -
  from assms(3) obtain w where
    w: "increaseCapToAtLest (len_v v + 1) v = Some w"
    and r: "e = None" "v' = w\<lparr>items := set_s (copy_within (go_append (items w) [0]) (i + 1) i) i x\<rparr>"
    by (auto simp add: Add_valid_unfold [OF assms(1,2)] split: bind_splits)
  from increaseCapToAtLest_Some [OF w]
  have ew: "elems (items w) = elems (items v)" and mw: "multiplier w = multiplier v" by auto
  have il: "nat i < length (elems (items w))" using assms(1,2) ew by (simp add: len_v_def len_def)
  show "e = None" by (rule r(1))
  show "multiplier v' = multiplier v" using r(2) mw by simp
  show "elems (items v') = take (nat i) (elems (items v)) @ x # drop (nat i) (elems (items v))"
    using r(2) shifted_elems [OF assms(1) il, of x] ew by simp
qed

lemma Add_valid_wf:
  assumes "wf v" "0 \<le> i" "i < len_v v"
  shows "Add i x v =
    (if len_v v + 1 \<le> cap (items v)
     then Some (None, v\<lparr>items := (items v)\<lparr>elems :=
            take (nat i) (elems (items v)) @ x # drop (nat i) (elems (items v))\<rparr>\<rparr>)
     else if maxSliceCap < max (int64 (cap (items v) * multiplier v)) (len_v v + 1) then None
     else Some (None, v\<lparr>items := \<lparr>elems =
            take (nat i) (elems (items v)) @ x # drop (nat i) (elems (items v)),
          capacity = nat (max (int64 (cap (items v) * multiplier v)) (len_v v + 1))\<rparr>\<rparr>))"
proof -
  let ?xs = "elems (items v)"
  let ?g = "max (int64 (cap (items v) * multiplier v)) (len_v v + 1)"
  let ?ins = "take (nat i) ?xs @ x # drop (nat i) ?xs"
  have il: "nat i < length ?xs" using assms(2,3) by (simp add: len_v_def len_def)
  have shape: "set_s (copy_within (go_append s [0]) (i + 1) i) i x
               = \<lparr>elems = ?ins, capacity = capacity s\<rparr>"
    if "elems s = ?xs" "length ?xs + 1 \<le> capacity s" for s :: slice
  proof -
    have "elems (set_s (copy_within (go_append s [0]) (i + 1) i) i x) = ?ins"
      using shifted_elems [OF assms(2), of s x] il that(1) by simp
    moreover have "capacity (set_s (copy_within (go_append s [0]) (i + 1) i) i x) = capacity s"
      using that by (simp add: shifted_capacity capacity_go_append_fits)
    ultimately show ?thesis by simp
  qed
  have a: "set_s (copy_within (go_append (items v) [0]) (i + 1) i) i x
           = (items v)\<lparr>elems := ?ins\<rparr>" if "len_v v + 1 \<le> cap (items v)"
  proof -
    have "length ?xs + 1 \<le> capacity (items v)"
      using that by (simp add: len_v_def len_def cap_def)
    from shape [OF refl this] show ?thesis by simp
  qed
  have b: "set_s (copy_within (go_append \<lparr>elems = ?xs, capacity = nat ?g\<rparr> [0]) (i + 1) i) i x
           = \<lparr>elems = ?ins, capacity = nat ?g\<rparr>"
  proof -
    have "len_v v + 1 \<le> ?g" by simp
    then have "length ?xs + 1 \<le> nat ?g"
      by (simp add: len_v_def len_def del: max.bounded_iff)
    then show ?thesis using shape [of "\<lparr>elems = ?xs, capacity = nat ?g\<rparr>"] by simp
  qed
  show ?thesis
    by (simp add: Add_valid_unfold [OF assms(2,3)] increaseCapToAtLest_wf [OF assms(1)] a b
        del: max.bounded_iff)
qed

section \<open>Overwriting, reading, removal and traversals\<close>

lemma Set_v_invalid: "i < 0 \<or> len_v v \<le> i \<Longrightarrow> Set_v i x v = (Some ErrInvalidIndex, v)"
  by (auto simp add: Set_v_def checkIndex_def)

lemma Set_v_valid:
  "0 \<le> i \<Longrightarrow> i < len_v v \<Longrightarrow>
   Set_v i x v = (None, v\<lparr>items := (items v)\<lparr>elems := (elems (items v))[nat i := x]\<rparr>\<rparr>)"
  by (simp add: Set_v_def checkIndex_def set_s_def)

lemma wf_Set_v: "wf v \<Longrightarrow> wf (snd (Set_v i x v))"
  by (simp add: Set_v_def checkIndex_def set_s_def wf_def wf_slice_def)

lemma cap_Set_v: "cap (items (snd (Set_v i x v))) = cap (items v)"
  by (simp add: Set_v_def checkIndex_def set_s_def cap_def)

lemma Peek_invalid: "i < 0 \<or> len_v v \<le> i \<Longrightarrow> Peek i v = (0, Some ErrInvalidIndex)"
  by (auto simp add: Peek_def checkIndex_def)

lemma Peek_valid: "0 \<le> i \<Longrightarrow> i < len_v v \<Longrightarrow> Peek i v = (elems (items v) ! nat i, None)"
  by (simp add: Peek_def checkIndex_def)

lemma remove_v_invalid: "i < 0 \<or> len_v v \<le> i \<Longrightarrow> remove_v i v = None"
  by (auto simp add: remove_v_def index_s_def len_v_def)

lemma remove_v_valid:
  assumes "0 \<le> i" "i < len_v v"
  shows "\<exists>v'. remove_v i v = Some (elems (items v) ! nat i, v')
          \<and> elems (items v') = take (nat i) (elems (items v)) @ drop (Suc (nat i)) (elems (items v))
          \<and> multiplier v' = multiplier v
          \<and> (wf v \<longrightarrow> capacity (items v') = capacity (items v))"
proof -
  have n1: "nat (i + 1) = Suc (nat i)" using assms by simp
  have il: "nat i < length (elems (items v))" using assms by (simp add: len_v_def len_def)
  have fits: "wf v \<Longrightarrow> length (elems (slice_to (items v) i))
       + length (elems (slice_from (items v) (i + 1))) \<le> capacity (slice_to (items v) i)"
    using il by (simp add: wf_def wf_slice_def slice_to_def slice_from_def n1)
  have "wf v \<Longrightarrow> capacity (go_append (slice_to (items v) i)
                            (elems (slice_from (items v) (i + 1)))) = capacity (items v)"
    using capacity_go_append_fits [OF fits] by (simp add: slice_to_def)
  then show ?thesis
    using assms
    by (simp add: remove_v_def index_s_def len_v_def elems_go_append slice_to_def
        slice_from_def n1)
qed

lemma Remove_invalid:
  "i < 0 \<or> len_v v \<le> i \<Longrightarrow> Remove i v = Some ((0, Some ErrInvalidIndex), v)"
  by (auto simp add: Remove_def checkIndex_def)

lemma Remove_valid:
  assumes "0 \<le> i" "i < len_v v"
  shows "\<exists>v'. Remove i v = Some ((elems (items v) ! nat i, None), v')
          \<and> elems (items v') = take (nat i) (elems (items v)) @ drop (Suc (nat i)) (elems (items v))
          \<and> multiplier v' = multiplier v
          \<and> (wf v \<longrightarrow> capacity (items v') = capacity (items v))"
proof -
  have ci: "checkIndex i v = None" using assms by (simp add: checkIndex_None)
  from remove_v_valid [OF assms] obtain v' where
    r: "remove_v i v = Some (elems (items v) ! nat i, v')"
    and p: "elems (items v') = take (nat i) (elems (items v)) @ drop (Suc (nat i)) (elems (items v))"
       "multiplier v' = multiplier v" "wf v \<longrightarrow> capacity (items v') = capacity (items v)"
    by blast
  have "Remove i v = Some ((elems (items v) ! nat i, None), v')"
    by (simp add: Remove_def ci r)
  with p show ?thesis by blast
qed

lemma step_Remove:
  assumes "wf v"
  shows "\<exists>res v'. Remove i v = Some (res, v') \<and> wf v' \<and> capacity (items v') = capacity (items v)"
proof (cases "0 \<le> i \<and> i < len_v v")
  case True
  then have a: "0 \<le> i" "i < len_v v" by auto
  from Remove_valid [OF a] obtain v' where
    r: "Remove i v = Some ((elems (items v) ! nat i, None), v')"
    and e: "elems (items v') = take (nat i) (elems (items v)) @ drop (Suc (nat i)) (elems (items v))"
    and c: "wf v \<longrightarrow> capacity (items v') = capacity (items v)"
    by blast
  have "length (elems (items v')) \<le> length (elems (items v))"
    using e by simp
  with c assms have "wf v'" by (simp add: wf_def wf_slice_def)
  with r c assms show ?thesis by simp
next
  case False
  then have "Remove i v = Some ((0, Some ErrInvalidIndex), v)"
    by (intro Remove_invalid) auto
  with assms show ?thesis by simp
qed

lemma filter_take_Suc_keep:
  "n < length xs \<Longrightarrow> \<not> P (xs ! n) \<Longrightarrow>
   filter (\<lambda>x. \<not> P x) (take (Suc n) xs) @ drop (Suc n) xs = filter (\<lambda>x. \<not> P x) (take n xs) @ drop n xs"
  by (simp add: take_Suc_conv_app_nth Cons_nth_drop_Suc)

lemma filter_take_Suc_drop:
  "n < length xs \<Longrightarrow> P (xs ! n) \<Longrightarrow>
   filter (\<lambda>x. \<not> P x) (take (Suc n) xs) @ drop (Suc n) xs = filter (\<lambda>x. \<not> P x) (take n xs) @ drop (Suc n) xs"
  by (simp add: take_Suc_conv_app_nth)

lemma RemoveIf_loop_inv:
  "n \<le> length (elems (items v)) \<Longrightarrow>
   \<exists>v'. RemoveIf_loop cb n v = Some v'
      \<and> elems (items v') = filter (\<lambda>x. \<not> cb x) (take n (elems (items v))) @ drop n (elems (items v))
      \<and> multiplier v' = multiplier v
      \<and> (wf v \<longrightarrow> capacity (items v') = capacity (items v))"
proof (induction n arbitrary: v)
  case 0
  then show ?case by simp
next
  case (Suc n)
  let ?xs = "elems (items v)"
  have nl: "n < length ?xs" using Suc.prems by simp
  have ix: "index_s (items v) (int n) = Some (?xs ! n)"
    using nl by (simp add: index_s_def len_def)
  show ?case
  proof (cases "cb (?xs ! n)")
    case False
    have "n \<le> length ?xs" using nl by simp
    from Suc.IH [OF this] obtain v' where
      l: "RemoveIf_loop cb n v = Some v'"
      and e: "elems (items v') = filter (\<lambda>x. \<not> cb x) (take n ?xs) @ drop n ?xs"
      and m: "multiplier v' = multiplier v" "wf v \<longrightarrow> capacity (items v') = capacity (items v)"
      by blast
    have "RemoveIf_loop cb (Suc n) v = Some v'"
      using False by (simp add: ix l)
    moreover have "elems (items v') = filter (\<lambda>x. \<not> cb x) (take (Suc n) ?xs) @ drop (Suc n) ?xs"
      using e filter_take_Suc_keep [OF nl, of cb] False by simp
    ultimately show ?thesis using m by blast
  next
    case True
    have a: "0 \<le> int n" "int n < len_v v" using nl by (simp_all add: len_v_def len_def)
    from remove_v_valid [OF a] obtain w where
      r: "remove_v (int n) v = Some (?xs ! n, w)"
      and ew: "elems (items w) = take n ?xs @ drop (Suc n) ?xs"
      and mw: "multiplier w = multiplier v" "wf v \<longrightarrow> capacity (items w) = capacity (items v)"
      by auto
    have lw: "n \<le> length (elems (items w))" using ew nl by simp
    have ww: "wf v \<Longrightarrow> wf w"
      using mw(2) ew by (simp add: wf_def wf_slice_def)
    from Suc.IH [OF lw] obtain v' where
      l: "RemoveIf_loop cb n w = Some v'"
      and e: "elems (items v') = filter (\<lambda>x. \<not> cb x) (take n (elems (items w))) @ drop n (elems (items w))"
      and m: "multiplier v' = multiplier w" "wf w \<longrightarrow> capacity (items v') = capacity (items w)"
      by blast
    have "RemoveIf_loop cb (Suc n) v = Some v'"
      using True by (simp add: ix r l)
    moreover have "elems (items v') = filter (\<lambda>x. \<not> cb x) (take (Suc n) ?xs) @ drop (Suc n) ?xs"
      using e ew nl filter_take_Suc_drop [OF nl, of cb] True by simp
    ultimately show ?thesis using m mw ww by auto
  qed
qed

lemma RemoveIf_result:
  "\<exists>v'. RemoveIf cb v = Some v'
      \<and> elems (items v') = filter (\<lambda>x. \<not> cb x) (elems (items v))
      \<and> multiplier v' = multiplier v
      \<and> (wf v \<longrightarrow> capacity (items v') = capacity (items v))"
  using RemoveIf_loop_inv [of "length (elems (items v))" v cb]
  by (simp add: RemoveIf_def)

lemma RemoveIf_loop_noop:
  "n \<le> length (elems (items v)) \<Longrightarrow> \<forall>x\<in>set (take n (elems (items v))). \<not> cb x \<Longrightarrow>
   RemoveIf_loop cb n v = Some v"
proof (induction n)
  case 0
  then show ?case by simp
next
  case (Suc n)
  have nl: "n < length (elems (items v))" using Suc.prems(1) by simp
  have ix: "index_s (items v) (int n) = Some (elems (items v) ! n)"
    using nl by (simp add: index_s_def len_def)
  have t: "take (Suc n) (elems (items v)) = take n (elems (items v)) @ [elems (items v) ! n]"
    using nl by (simp add: take_Suc_conv_app_nth)
  have "\<not> cb (elems (items v) ! n)" using Suc.prems(2) t by simp
  moreover have "RemoveIf_loop cb n v = Some v"
    using Suc.IH Suc.prems t nl by simp
  ultimately show ?case by (simp add: ix)
qed

lemma RemoveIf_noop: "\<forall>x\<in>set (elems (items v)). \<not> cb x \<Longrightarrow> RemoveIf cb v = Some v"
  using RemoveIf_loop_noop [of "length (elems (items v))" v cb] by (simp add: RemoveIf_def)

lemma each_from_Any:
  "each_from i (\<lambda>index item (r, u).
             case logged p item u of
               (b, u') \<Rightarrow> if b then (False, (True, u')) else (True, (r, u'))) xs (r, u)
   = (r \<or> (\<exists>x\<in>set xs. p x), u @ upto_first p xs)"
proof (induction xs arbitrary: i r u)
  case Nil
  then show ?case by (simp add: upto_first_def)
next
  case (Cons x xs)
  show ?case
  proof (cases "p x")
    case True
    then show ?thesis by (simp add: logged_def upto_first_def)
  next
    case False
    then show ?thesis using Cons.IH [of "Suc i" r "u @ [x]"]
      by (simp add: logged_def upto_first_def)
  qed
qed

lemma each_from_All:
  "each_from i (\<lambda>index item (r, u).
             let r = (if index = 0 then True else r)
             in case logged p item u of
                  (b, u') \<Rightarrow> if \<not> b then (False, (False, u')) else (True, (r, u'))) xs (r, u)
   = ((if \<exists>x\<in>set xs. \<not> p x then False else if i = 0 \<and> xs \<noteq> [] then True else r),
      u @ upto_first (\<lambda>x. \<not> p x) xs)"
proof (induction xs arbitrary: i r u)
  case Nil
  then show ?case by (simp add: upto_first_def)
next
  case (Cons x xs)
  show ?case
  proof (cases "p x")
    case False
    then show ?thesis by (simp add: logged_def upto_first_def)
  next
    case True
    then show ?thesis using Cons.IH [of "Suc i" "if i = 0 then True else r" "u @ [x]"]
      by (simp add: logged_def upto_first_def Let_def)
  qed
qed

lemma Any_logged:
  "Any (logged p) v u = (\<exists>x\<in>set (elems (items v)). p x, u @ upto_first p (elems (items v)))"
  unfolding Any_def each_def each_from_Any by simp

lemma All_v_logged:
  "All_v (logged p) v u =
     (elems (items v) \<noteq> [] \<and> (\<forall>x\<in>set (elems (items v)). p x),
      u @ upto_first (\<lambda>x. \<not> p x) (elems (items v)))"
  unfolding All_v_def each_def each_from_All by auto

lemma Any_empty: "elems (items v) = [] \<Longrightarrow> Any cb v u = (False, u)"
  by (simp add: Any_def each_def)

lemma All_v_empty: "elems (items v) = [] \<Longrightarrow> All_v cb v u = (False, u)"
  by (simp add: All_v_def each_def)

lemma fold_enumerate_sum:
  "fold (\<lambda>(i, val1) r. r + val1 * ys ! i) (enumerate n xs) (r0 :: elem)
   = r0 + (\<Sum>i<length xs. xs ! i * ys ! (n + i))"
proof (induction xs arbitrary: n r0)
  case Nil
  then show ?case by simp
next
  case (Cons x xs)
  show ?case
    using Cons.IH [of "Suc n" "r0 + x * ys ! n"]
    by (simp add: sum.lessThan_Suc_shift add.assoc del: sum.lessThan_Suc)
qed

lemma InnerProduct_differs:
  "length (elems (items v)) \<noteq> length (elems (items other)) \<Longrightarrow>
   InnerProduct v other = (0, Some ErrSizeDiffers)"
  by (simp add: InnerProduct_def len_v_def len_def)

lemma InnerProduct_same:
  "length (elems (items v)) = length (elems (items other)) \<Longrightarrow>
   InnerProduct v other =
     (\<Sum>i<length (elems (items v)). elems (items v) ! i * elems (items other) ! i, None)"
  by (simp add: InnerProduct_def len_v_def len_def fold_enumerate_sum)

lemma cap_Clear: "Cap (Clear v) = Cap v"
  by (simp add: Clear_def slice_to_def Cap_def cap_def)

lemma Slice_elems: "Slice v = elems (items v)"
proof -
  have "fold (\<lambda>item r. r @ [item]) xs acc = acc @ xs" for xs acc :: "elem list"
    by (induction xs arbitrary: acc) simp_all
  then show ?thesis by (simp add: Slice_def)
qed

section \<open>Calls and runs of calls\<close>

lemma grow_ge: "(c::int) \<le> (if n \<le> c then c else max m n)"
  by auto

lemma append_v_cap:
  assumes "wf v" "append_v xs v = Some v'"
  shows "cap (items v') =
     (if len_v v + int (length xs) \<le> cap (items v) then cap (items v)
      else max (int64 (cap (items v) * multiplier v)) (len_v v + int (length xs)))"
proof -
  have "0 \<le> len_v v + int (length xs)" by (simp add: len_v_def len_def)
  then have "0 \<le> max (int64 (cap (items v) * multiplier v)) (len_v v + int (length xs))"
    by simp
  then show ?thesis
    using assms(2) unfolding append_v_wf [OF assms(1)]
    by (auto simp add: cap_def split: if_splits simp del: max.bounded_iff)
qed

lemma append_v_None:
  assumes "wf v"
  shows "append_v xs v = None \<longleftrightarrow>
     cap (items v) < len_v v + int (length xs)
     \<and> maxSliceCap < max (int64 (cap (items v) * multiplier v)) (len_v v + int (length xs))"
  unfolding append_v_wf [OF assms] by (simp del: max.bounded_iff)

lemma append_v_cap_mono:
  assumes "wf v" "append_v xs v = Some v'"
  shows "cap (items v) \<le> cap (items v')"
  unfolding append_v_cap [OF assms] by (rule grow_ge)

lemma Add_valid_cap:
  assumes "wf v" "0 \<le> i" "i < len_v v" "Add i x v = Some (e, v')"
  shows "cap (items v') =
     (if len_v v + 1 \<le> cap (items v) then cap (items v)
      else max (int64 (cap (items v) * multiplier v)) (len_v v + 1))"
proof -
  have "0 \<le> len_v v + 1" by (simp add: len_v_def len_def)
  then have "0 \<le> max (int64 (cap (items v) * multiplier v)) (len_v v + 1)"
    by simp
  then show ?thesis
    using assms(4) unfolding Add_valid_wf [OF assms(1,2,3)]
    by (auto simp add: cap_def split: if_splits simp del: max.bounded_iff)
qed

lemma Add_valid_None:
  assumes "wf v" "0 \<le> i" "i < len_v v"
  shows "Add i x v = None \<longleftrightarrow>
     cap (items v) < len_v v + 1
     \<and> maxSliceCap < max (int64 (cap (items v) * multiplier v)) (len_v v + 1)"
  unfolding Add_valid_wf [OF assms] by (simp del: max.bounded_iff)

lemma empty_wf: "len_v v = 0 \<Longrightarrow> wf v"
  by (simp add: wf_def wf_slice_def len_v_def len_def)

lemma Add_empty_ok:
  assumes "len_v v = 0"
  shows "\<exists>v'. Add 0 x v = Some (None, v') \<and> elems (items v') = [x]
            \<and> multiplier v' = multiplier v"
proof -
  have w: "wf v" using assms by (rule empty_wf)
  have e: "elems (items v) = []" using assms by (simp add: len_v_def len_def)
  have "append_v [x] v \<noteq> None"
  proof (cases "1 \<le> cap (items v)")
    case True
    then show ?thesis using assms by (simp add: append_v_None [OF w])
  next
    case False
    then have "cap (items v) = 0" by (simp add: cap_def)
    then show ?thesis
      using assms by (simp add: append_v_None [OF w] int64_0 maxSliceCap_eq)
  qed
  then obtain v' where a: "append_v [x] v = Some v'" by auto
  from append_v_Some [OF a] e have "elems (items v') = [x]" "multiplier v' = multiplier v"
    by simp_all
  then show ?thesis using a by (simp add: Add_empty [OF assms])
qed

lemma Add_Some_wf:
  assumes "wf v" "Add i x v = Some (e, v')"
  shows "wf v' \<and> cap (items v) \<le> cap (items v')"
proof (cases "i = 0 \<and> len_v v = 0")
  case True
  then have l: "len_v v = 0" and i: "i = 0" by auto
  from assms(2) obtain w where a: "append_v [x] v = Some w" and "v' = w"
    by (auto simp add: i Add_empty [OF l] split: bind_splits)
  then show ?thesis using append_v_Some(3) [OF a] append_v_cap_mono [OF assms(1) a] by simp
next
  case ne: False
  show ?thesis
  proof (cases "0 \<le> i \<and> i < len_v v")
    case True
    then have v: "0 \<le> i" "i < len_v v" by auto
    have c: "cap (items v) \<le> cap (items v')"
      unfolding Add_valid_cap [OF assms(1) v assms(2)] by (rule grow_ge)
    have "length (elems (items v')) = length (elems (items v)) + 1"
      using Add_valid_Some(2) [OF v assms(2)] by simp
    moreover have "len_v v + 1 \<le> cap (items v')"
      unfolding Add_valid_cap [OF assms(1) v assms(2)] by simp
    ultimately have "wf v'" by (simp add: wf_def wf_slice_def len_v_def len_def cap_def)
    with c show ?thesis by simp
  next
    case False
    then have "Add i x v = Some (Some ErrInvalidIndex, v)"
      using ne by (intro Add_invalid) auto
    with assms show ?thesis by simp
  qed
qed

lemma step_ok:
  assumes "wf v" "step x v = Some v'"
  shows "wf v' \<and> cap (items v) \<le> cap (items v')"
proof (cases x)
  case (OpAdd i a)
  with assms(2) obtain e where "Add i a v = Some (e, v')" by auto
  from Add_Some_wf [OF assms(1) this] show ?thesis .
next
  case (OpSet i a)
  then show ?thesis using assms wf_Set_v [of v i a] cap_Set_v [of i a v] by auto
next
  case (OpAppend a)
  then have a: "append_v [a] v = Some v'" using assms(2) by (simp add: Append_def)
  show ?thesis using append_v_Some(3) [OF a] append_v_cap_mono [OF assms(1) a] by simp
next
  case (OpAppendAll xs)
  then have a: "append_v xs v = Some v'" using assms(2) by (simp add: AppendAll_def)
  show ?thesis using append_v_Some(3) [OF a] append_v_cap_mono [OF assms(1) a] by simp
next
  case (OpRemove i)
  from step_Remove [OF assms(1), of i] obtain res w where
    "Remove i v = Some (res, w)" "wf w" "capacity (items w) = capacity (items v)"
    by blast
  then show ?thesis using OpRemove assms(2) by (simp add: cap_def)
next
  case (OpRemoveIf cb)
  from RemoveIf_result [of cb v] obtain w where
    r: "RemoveIf cb v = Some w"
    and e: "elems (items w) = filter (\<lambda>x. \<not> cb x) (elems (items v))"
    and c: "wf v \<longrightarrow> capacity (items w) = capacity (items v)"
    by blast
  have "length (elems (items w)) \<le> length (elems (items v))" using e by simp
  with c assms(1) have "wf w" by (simp add: wf_def wf_slice_def)
  with r c assms OpRemoveIf show ?thesis by (simp add: cap_def)
next
  case OpClear
  then show ?thesis
    using assms by (auto simp add: Clear_def slice_to_def wf_def wf_slice_def cap_def)
qed

lemma run_ok:
  "wf v \<Longrightarrow> run ops v = Some v' \<Longrightarrow> wf v' \<and> cap (items v) \<le> cap (items v')"
proof (induction ops arbitrary: v)
  case Nil
  then show ?case by simp
next
  case (Cons x ops)
  from Cons.prems(2) obtain w where s: "step x v = Some w" and r: "run ops w = Some v'"
    by (auto split: option.splits)
  from step_ok [OF Cons.prems(1) s] have w: "wf w" and c: "cap (items v) \<le> cap (items w)"
    by auto
  from Cons.IH [OF w r] c show ?case by auto
qed


lemma step_total:
  "step (OpSet i a) v \<noteq> None" "step (OpRemoveIf cb) v \<noteq> None" "step OpClear v \<noteq> None"
    "step (OpRemove i) v \<noteq> None"
proof -
  show "step (OpSet i a) v \<noteq> None" "step OpClear v \<noteq> None" by simp_all
  show "step (OpRemoveIf cb) v \<noteq> None" using RemoveIf_result [of cb v] by auto
  show "step (OpRemove i) v \<noteq> None"
  proof (cases "0 \<le> i \<and> i < len_v v")
    case True
    then have "0 \<le> i" "i < len_v v" by auto
    from Remove_valid [OF this] show ?thesis by auto
  next
    case False
    then have "Remove i v = Some ((0, Some ErrInvalidIndex), v)"
      by (intro Remove_invalid) auto
    then show ?thesis by simp
  qed
qed

section \<open>Running folds and copies\<close>

lemma New_eq: "New = Some \<lparr>multiplier = 2, items = \<lparr>elems = [], capacity = 10\<rparr>\<rparr>"
  by (simp add: New_def NewWithCap_def defaultCapacity_def defaultMultiplier_def make_slice_def
      maxSliceCap_eq)

lemma Append_Some:
  assumes "Append x v = Some v'"
  shows "elems (items v') = elems (items v) @ [x]" and "multiplier v' = multiplier v" and "wf v'"
  using append_v_Some [of "[x]" v v'] assms by (simp_all add: Append_def)


lemma Append_None:
  assumes "wf v"
  shows "Append x v = None \<longleftrightarrow>
     Cap v < Len v + 1 \<and> maxSliceCap < max (int64 (Cap v * multiplier v)) (Len v + 1)"
  using append_v_None [OF assms, of "[x]"] by (simp add: Append_def Cap_def Len_def)

lemma Append_doubling_total:
  assumes "wf v" "multiplier v = 2" "2 * Len v \<le> maxSliceCap"
  shows "\<exists>v'. Append x v = Some v'"
proof -
  have "Append x v \<noteq> None"
  proof
    assume "Append x v = None"
    then have g: "Cap v < Len v + 1"
      and m: "maxSliceCap < max (int64 (Cap v * multiplier v)) (Len v + 1)"
      by (simp_all add: Append_None [OF assms(1)])
    have c: "Cap v = Len v" using g assms(1) by (simp add: wf_iff)
    have l0: "0 \<le> Len v" by (simp add: Len_def len_v_def len_def)
    have "int64 (2 * Len v) = 2 * Len v"
      using l0 assms(3) by (intro int64_id) (simp_all add: maxSliceCap_eq)
    then have "max (int64 (Cap v * multiplier v)) (Len v + 1) = max (2 * Len v) (Len v + 1)"
      by (simp add: c assms(2) mult.commute)
    also have "\<dots> \<le> maxSliceCap"
      using assms(3) l0 by (simp add: maxSliceCap_eq)
    finally have "max (int64 (Cap v * multiplier v)) (Len v + 1) \<le> maxSliceCap" .
    with m show False by linarith
  qed
  then show ?thesis by auto
qed

lemma Accumulate_body_Some:
  assumes "elems (items r) \<noteq> []" "Accumulate_body cb v i r = Some r'"
  shows "elems (items r') =
           elems (items r) @ [cb (elems (items r) ! (length (elems (items r)) - 1)) (elems (items v) ! i)]"
    and "multiplier r' = multiplier r" and "wf r'"
proof -
  have l: "0 < length (elems (items r))" using assms(1) by simp
  have "Peek (Len r - 1) r = (elems (items r) ! (length (elems (items r)) - 1), None)"
    using l by (simp add: Peek_valid Len_def len_v_def len_def nat_diff_distrib')
  then have a: "Append (cb (elems (items r) ! (length (elems (items r)) - 1)) (elems (items v) ! i)) r
                = Some r'"
    using assms(2) by (simp add: Accumulate_body_def)
  from Append_Some [OF a]
  show "elems (items r') =
           elems (items r) @ [cb (elems (items r) ! (length (elems (items r)) - 1)) (elems (items v) ! i)]"
    and "multiplier r' = multiplier r" and "wf r'"
    by simp_all
qed

lemma Accumulate_loop_snoc:
  "Accumulate_loop cb v (ks @ [k]) r =
     (case Accumulate_loop cb v ks r of None \<Rightarrow> None | Some w \<Rightarrow> Accumulate_body cb v k w)"
  by (induction ks arbitrary: r) (auto split: bind_splits option.splits)

lemma Accumulate_loop_Some:
  assumes "elems (items r0) = [elems (items v) ! 0]"
  shows "1 \<le> k \<Longrightarrow> Accumulate_loop cb v [1..<k] r0 = Some r \<Longrightarrow>
    length (elems (items r)) = k \<and> scan_ok cb (elems (items v)) (elems (items r))
    \<and> multiplier r = multiplier r0 \<and> (wf r0 \<longrightarrow> wf r)"
proof (induction k arbitrary: r)
  case 0
  then show ?case by simp
next
  case (Suc k)
  let ?xs = "elems (items v)"
  show ?case
  proof (cases "k = 0")
    case True
    then have "r = r0" using Suc.prems(2) by simp
    then show ?thesis using assms True by (simp add: scan_ok_def)
  next
    case False
    then have k1: "1 \<le> k" by simp
    have u: "[1..<Suc k] = [1..<k] @ [k]" using k1 by simp
    from Suc.prems(2) obtain w where
      lw: "Accumulate_loop cb v [1..<k] r0 = Some w"
      and b: "Accumulate_body cb v k w = Some r"
      unfolding u Accumulate_loop_snoc by (auto split: option.splits)
    let ?ys = "elems (items w)"
    from Suc.IH [OF k1 lw] have l: "length ?ys = k" and s: "scan_ok cb ?xs ?ys"
      and m: "multiplier w = multiplier r0" by auto
    have ne: "?ys \<noteq> []" using l k1 by auto
    note B = Accumulate_body_Some [OF ne b]
    have e: "elems (items r) = ?ys @ [cb (?ys ! (k - 1)) (?xs ! k)]"
      using B(1) l by simp
    have mr: "multiplier r = multiplier r0" using B(2) m by simp
    have wr: "wf r" by (rule B(3))
    have sc: "scan_ok cb ?xs (?ys @ [cb (?ys ! (k - 1)) (?xs ! k)])"
      unfolding scan_ok_def
    proof (intro conjI allI impI)
      show "(?ys @ [cb (?ys ! (k - 1)) (?xs ! k)]) ! 0 = ?xs ! 0"
        using s l k1 by (simp add: scan_ok_def nth_append)
    next
      fix i
      assume i: "1 \<le> i \<and> i < length (?ys @ [cb (?ys ! (k - 1)) (?xs ! k)])"
      show "(?ys @ [cb (?ys ! (k - 1)) (?xs ! k)]) ! i
            = cb ((?ys @ [cb (?ys ! (k - 1)) (?xs ! k)]) ! (i - 1)) (?xs ! i)"
      proof (cases "i < k")
        case True
        then have "?ys ! i = cb (?ys ! (i - 1)) (?xs ! i)"
          using s i l by (simp add: scan_ok_def)
        moreover have "i - 1 < k" using True by simp
        ultimately show ?thesis using True l by (simp add: nth_append)
      next
        case False
        then have "i = k" using i l by simp
        then show ?thesis using l k1 by (simp add: nth_append)
      qed
    qed
    have "length (elems (items r)) = Suc k" unfolding e using l by simp
    moreover have "scan_ok cb ?xs (elems (items r))" unfolding e by (rule sc)
    ultimately show ?thesis using mr wr by blast
  qed
qed

lemma Accumulate_loop_total:
  assumes "elems (items r0) = [elems (items v) ! 0]" "wf r0" "multiplier r0 = 2"
    and "2 * int n \<le> maxSliceCap"
  shows "1 \<le> k \<Longrightarrow> k \<le> n \<Longrightarrow> \<exists>r. Accumulate_loop cb v [1..<k] r0 = Some r"
proof (induction k)
  case 0
  then show ?case by simp
next
  case (Suc k)
  show ?case
  proof (cases "k = 0")
    case True
    then show ?thesis by simp
  next
    case False
    then have k1: "1 \<le> k" by simp
    have u: "[1..<Suc k] = [1..<k] @ [k]" using k1 by simp
    from Suc.IH [OF k1] Suc.prems obtain w where
      lw: "Accumulate_loop cb v [1..<k] r0 = Some w" by auto
    from Accumulate_loop_Some [OF assms(1) k1 lw] assms(2,3)
    have l: "length (elems (items w)) = k" and m: "multiplier w = 2" and ww: "wf w" by auto
    have "2 * Len w \<le> maxSliceCap"
      using l Suc.prems(2) assms(4) by (simp add: Len_def len_v_def len_def)
    from Append_doubling_total [OF ww m this]
    have "\<exists>r. Accumulate_body cb v k w = Some r"
      by (simp add: Accumulate_body_def split: prod.splits)
    then show ?thesis unfolding u Accumulate_loop_snoc lw by simp
  qed
qed

lemma fresh_facts:
  "wf \<lparr>multiplier = 2, items = \<lparr>elems = [], capacity = 10\<rparr>\<rparr>"
  "Len \<lparr>multiplier = 2, items = \<lparr>elems = [], capacity = 10\<rparr>\<rparr> = 0"
  "Cap \<lparr>multiplier = 2, items = \<lparr>elems = [], capacity = 10\<rparr>\<rparr> = 10"
  by (simp_all add: wf_def wf_slice_def Len_def len_v_def len_def Cap_def cap_def)

lemma Accumulate_Some:
  assumes "Accumulate cb v = Some r"
  shows "length (elems (items r)) = length (elems (items v))"
    and "elems (items v) \<noteq> [] \<Longrightarrow> scan_ok cb (elems (items v)) (elems (items r))"
    and "wf r"
proof -
  let ?fresh = "\<lparr>multiplier = 2, items = \<lparr>elems = [], capacity = 10\<rparr>\<rparr>"
  let ?xs = "elems (items v)"
  have all: "length (elems (items r)) = length ?xs
      \<and> (?xs \<noteq> [] \<longrightarrow> scan_ok cb ?xs (elems (items r))) \<and> wf r"
  proof (cases "?xs = []")
    case True
    then have "r = ?fresh" using assms by (simp add: Accumulate_def New_eq len_v_def len_def)
    then show ?thesis using True fresh_facts(1) by simp
  next
    case False
    then have n0: "len_v v \<noteq> 0" by (simp add: len_v_def len_def)
    from assms obtain r0 where
      a: "Append (?xs ! 0) ?fresh = Some r0"
      and l: "Accumulate_loop cb v [1..<nat (len_v v)] r0 = Some r"
      by (auto simp add: Accumulate_def New_eq n0 split: bind_splits)
    from Append_Some [OF a] have e0: "elems (items r0) = [?xs ! 0]" and w0: "wf r0" by simp_all
    have k: "1 \<le> nat (len_v v)" using False by (cases ?xs) (auto simp add: len_v_def len_def)
    from Accumulate_loop_Some [OF e0 k l] w0 False show ?thesis
      by (simp add: len_v_def len_def)
  qed
  then show "length (elems (items r)) = length (elems (items v))"
    and "elems (items v) \<noteq> [] \<Longrightarrow> scan_ok cb (elems (items v)) (elems (items r))"
    and "wf r"
    by simp_all
qed

lemma Accumulate_total:
  assumes "2 * Len v \<le> maxSliceCap"
  shows "\<exists>r. Accumulate cb v = Some r"
proof (cases "elems (items v) = []")
  case True
  then show ?thesis by (simp add: Accumulate_def New_eq len_v_def len_def)
next
  case False
  let ?fresh = "\<lparr>multiplier = 2, items = \<lparr>elems = [], capacity = 10\<rparr>\<rparr>"
  let ?xs = "elems (items v)"
  have n0: "len_v v \<noteq> 0" using False by (simp add: len_v_def len_def)
  have "2 * Len ?fresh \<le> maxSliceCap" by (simp add: fresh_facts maxSliceCap_eq)
  from Append_doubling_total [OF fresh_facts(1) _ this, of "?xs ! 0"] obtain r0 where
    a: "Append (?xs ! 0) ?fresh = Some r0" by auto
  from Append_Some [OF a] have e0: "elems (items r0) = [?xs ! 0]" and w0: "wf r0"
    and m0: "multiplier r0 = 2" by simp_all
  have k: "1 \<le> nat (len_v v)" using False by (cases ?xs) (auto simp add: len_v_def len_def)
  have b: "2 * int (nat (len_v v)) \<le> maxSliceCap"
    using assms by (simp add: Len_def len_v_def len_def)
  from Accumulate_loop_total [OF e0 w0 m0 b k order_refl, of cb] obtain r where
    "Accumulate_loop cb v [1..<nat (len_v v)] r0 = Some r" by auto
  then show ?thesis by (simp add: Accumulate_def New_eq n0 a)
qed

lemma Clone_not_vector: "Clone v \<noteq> Some (Some r)"
  by (auto simp add: Clone_def split: bind_splits)

lemma Clone_nil:
  assumes "Len v \<le> Cap v" "Cap v \<le> maxSliceCap"
  shows "Clone v = Some None"
proof -
  let ?c = "\<lparr>multiplier = multiplier v, items = \<lparr>elems = [], capacity = capacity (items v)\<rparr>\<rparr>"
  have n: "NewWithCap (cap (items v)) (multiplier v) = Some ?c"
    using assms(2) by (simp add: NewWithCap_def make_slice_def Cap_def cap_def)
  have w: "wf ?c" by (simp add: wf_def wf_slice_def)
  have "append_v (elems (items v)) ?c \<noteq> None"
    using assms(1) by (simp add: append_v_None [OF w] Len_def Cap_def len_v_def len_def cap_def)
  then obtain c' where "append_v (elems (items v)) ?c = Some c'" by auto
  then show ?thesis by (simp add: Clone_def n)
qed

section \<open>The default vector, examples, and the remaining read-only methods\<close>





lemma run_example:
  "run [OpAppendAll [1, 2, 3], OpRemove 0, OpAdd 1 9, OpSet 0 7, OpRemoveIf (\<lambda>x. x = 9), OpAppend 4, OpClear]
       \<lparr>multiplier = 3, items = \<lparr>elems = [], capacity = 2\<rparr>\<rparr>
   = Some \<lparr>multiplier = 3, items = \<lparr>elems = [], capacity = 6\<rparr>\<rparr>"
  by code_simp

lemma Accumulate_example:
  "Accumulate (+) \<lparr>multiplier = 2, items = \<lparr>elems = [1, 2, 3, 4, 5], capacity = 10\<rparr>\<rparr>
   = Some \<lparr>multiplier = 2, items = \<lparr>elems = [1, 3, 6, 10, 15], capacity = 10\<rparr>\<rparr>"
  by code_simp

lemma int64_wraps: "int64 (2 * 2 ^ 62) = - (2 ^ 63)"
  by (simp add: int64_def)

lemma IndexOf_from_absent: "item \<notin> set xs \<Longrightarrow> IndexOf_from i item xs r = r"
  by (induction xs arbitrary: i) auto

lemma IndexOf_absent: "item \<notin> set (elems (items v)) \<Longrightarrow> IndexOf item v = - 1"
  by (simp add: IndexOf_def IndexOf_from_absent)

lemma list_all_enumerate_eq:
  "length xs = length ys \<Longrightarrow>
   list_all (\<lambda>(i, this). (pre @ ys) ! i = this) (enumerate (length pre) xs) \<longleftrightarrow> xs = ys"
proof (induction xs arbitrary: ys pre)
  case Nil
  then show ?case by simp
next
  case (Cons x xs)
  then obtain y ys' where ys: "ys = y # ys'" by (cases ys) auto
  from Cons.IH [of ys' "pre @ [y]"] Cons.prems ys show ?case by auto
qed

lemma Equal_iff: "Equal v other \<longleftrightarrow> elems (items v) = elems (items other)"
proof (cases "length (elems (items v)) = length (elems (items other))")
  case True
  then show ?thesis
    using list_all_enumerate_eq [of "elems (items v)" "elems (items other)" "[]"]
    by (simp add: Equal_def len_v_def len_def)
next
  case False
  then show ?thesis by (auto simp add: Equal_def len_v_def len_def)
qed

lemma Reduce_empty: "elems (items v) = [] \<Longrightarrow> Reduce cb v = 0"
  by (simp add: Reduce_def len_v_def len_def)

section \<open>The claims\<close>

subsection \<open>C1: Clone\<close>

text \<open>
  C1 states that \<^verbatim>\<open>Clone()\<close> returns a new vector with the multiplier, the capacity
  and the elements of \<open>v\<close>, independent of \<open>v\<close>. The code builds that copy, in a
  variable that shadows the named result, and returns the named result, which is still
  \<^verbatim>\<open>nil\<close>: \<^verbatim>\<open>v.Clone()\<close> never returns a vector, and for every vector that Go
  can hold (its length within its capacity, its capacity one that \<^verbatim>\<open>make\<close>
  accepts) it returns without a panic and its result is the \<^verbatim>\<open>nil\<close> pointer. The
  test \<^verbatim>\<open>TestVector_Clone\<close> expects the copy (capacity 10, items 1, 2, 3 for
  \<^verbatim>\<open>From(1, 2, 3)\<close>).
\<close>

theorem Clone_returns_nil:
  "(Len v \<le> Cap v \<and> Cap v \<le> maxSliceCap \<longrightarrow> Clone v = Some None)
   \<and> Clone v \<noteq> Some (Some r)"
  using Clone_nil [of v] Clone_not_vector [of v r] by blast

theorem Clone_returns_nil_witness:
  "From [1, 2, 3] = Some \<lparr>multiplier = 2, items = \<lparr>elems = [1, 2, 3], capacity = 10\<rparr>\<rparr>
   \<and> Len \<lparr>multiplier = 2, items = \<lparr>elems = [1, 2, 3], capacity = 10\<rparr>\<rparr> = 3
   \<and> Cap \<lparr>multiplier = 2, items = \<lparr>elems = [1, 2, 3], capacity = 10\<rparr>\<rparr> = 10
   \<and> Clone \<lparr>multiplier = 2, items = \<lparr>elems = [1, 2, 3], capacity = 10\<rparr>\<rparr> = Some None"
proof -
  let ?v = "\<lparr>multiplier = 2, items = \<lparr>elems = [1, 2, 3], capacity = 10\<rparr>\<rparr>"
  have f: "From [1, 2, 3] = Some ?v" by code_simp
  have l: "Len ?v = 3" by (simp add: Len_def len_v_def len_def)
  have c: "Cap ?v = 10" by (simp add: Cap_def cap_def)
  have h: "Len ?v \<le> Cap ?v \<and> Cap ?v \<le> maxSliceCap" using l c by (simp add: maxSliceCap_eq)
  have "Clone ?v = Some None"
    by (rule Clone_returns_nil [of ?v, THEN conjunct1, THEN mp, OF h])
  with f l c show ?thesis by simp
qed

subsection \<open>C2: Add at the length of a non-empty vector\<close>

text \<open>
  C2, as the code has it: for every non-empty vector \<open>v\<close> of length \<open>L\<close>,
  \<^verbatim>\<open>Add(i, item)\<close> returns the invalid-index error and leaves the vector as it
  was for every index \<open>i \<ge> L\<close>, the index \<open>L\<close> itself included.
  \<^verbatim>\<open>checkIndex\<close> accepts \<open>0 \<le> index \<le> len - 1\<close> only, and the one
  exception in \<^verbatim>\<open>Add\<close> is index \<open>0\<close> on an empty vector.
\<close>

theorem Add_at_or_past_length:
  "elems (items v) \<noteq> [] \<Longrightarrow> Len v \<le> i \<Longrightarrow> Add i item v = Some (Some ErrInvalidIndex, v)"
proof -
  assume ne: "elems (items v) \<noteq> []" and le: "Len v \<le> i"
  have "len_v v \<noteq> 0" using ne by (simp add: len_v_def len_def)
  moreover have "len_v v \<le> i" using le by (simp add: Len_def)
  ultimately show ?thesis by (intro Add_invalid) auto
qed

theorem Add_at_or_past_length_witness:
  "elems (items \<lparr>multiplier = 2, items = \<lparr>elems = [5], capacity = 10\<rparr>\<rparr>) = [5]
   \<and> Len \<lparr>multiplier = 2, items = \<lparr>elems = [5], capacity = 10\<rparr>\<rparr> = 1
   \<and> Add 1 11 \<lparr>multiplier = 2, items = \<lparr>elems = [5], capacity = 10\<rparr>\<rparr>
       = Some (Some ErrInvalidIndex, \<lparr>multiplier = 2, items = \<lparr>elems = [5], capacity = 10\<rparr>\<rparr>)
   \<and> Add 7 11 \<lparr>multiplier = 2, items = \<lparr>elems = [5], capacity = 10\<rparr>\<rparr>
       = Some (Some ErrInvalidIndex, \<lparr>multiplier = 2, items = \<lparr>elems = [5], capacity = 10\<rparr>\<rparr>)"
proof -
  let ?v = "\<lparr>multiplier = 2, items = \<lparr>elems = [5], capacity = 10\<rparr>\<rparr>"
  have ne: "elems (items ?v) \<noteq> []" by simp
  have l: "Len ?v = 1" by (simp add: Len_def len_v_def len_def)
  have l1: "Len ?v \<le> 1" and l7: "Len ?v \<le> 7" using l by simp_all
  show ?thesis
    using l Add_at_or_past_length [OF ne l1, of 11] Add_at_or_past_length [OF ne l7, of 11]
    by simp
qed

text \<open>
  C2 as stated says that \<^verbatim>\<open>Add(L, item)\<close> succeeds and appends. On the one-element
  vector \<^verbatim>\<open>From(5)\<close>, \<^verbatim>\<open>Add(1, 11)\<close> returns the invalid-index error and the
  vector still holds \<open>[5]\<close>.
\<close>

theorem Add_at_length_counterexample:
  "From [5] = Some \<lparr>multiplier = 2, items = \<lparr>elems = [5], capacity = 10\<rparr>\<rparr>
   \<and> Add 1 11 \<lparr>multiplier = 2, items = \<lparr>elems = [5], capacity = 10\<rparr>\<rparr>
       = Some (Some ErrInvalidIndex, \<lparr>multiplier = 2, items = \<lparr>elems = [5], capacity = 10\<rparr>\<rparr>)"
  by code_simp

subsection \<open>C3: index validation\<close>

text \<open>
  C3: \<^verbatim>\<open>Add(0, item)\<close> on an empty vector succeeds (it returns, with no error) and
  yields \<open>[item]\<close>; for every other index outside the vector (\<open>i < 0\<close>, or
  \<open>i \<ge> length\<close> with the vector non-empty, or \<open>i \<noteq> 0\<close> with the vector empty)
  \<^verbatim>\<open>Add(i, item)\<close> returns the invalid-index error; \<^verbatim>\<open>Set\<close>, \<^verbatim>\<open>Remove\<close>
  and \<^verbatim>\<open>Peek\<close> return the invalid-index error for every index outside
  \<open>0 \<le> index < length\<close>, index \<open>0\<close> of an empty vector included.
\<close>

theorem index_validation:
  "(Len v = 0 \<longrightarrow> (\<exists>v'. Add 0 item v = Some (None, v') \<and> elems (items v') = [item]))
   \<and> (i < 0 \<or> (Len v \<le> i \<and> Len v \<noteq> 0) \<or> (i \<noteq> 0 \<and> Len v = 0)
        \<longrightarrow> Add i item v = Some (Some ErrInvalidIndex, v))
   \<and> (\<not> (0 \<le> i \<and> i < Len v)
        \<longrightarrow> Set_v i item v = (Some ErrInvalidIndex, v)
          \<and> Remove i v = Some ((0, Some ErrInvalidIndex), v)
          \<and> Peek i v = (0, Some ErrInvalidIndex))"
proof (intro conjI impI)
  assume e: "Len v = 0"
  then have l: "len_v v = 0" by (simp add: Len_def)
  from Add_empty_ok [OF l, of item]
  show "\<exists>v'. Add 0 item v = Some (None, v') \<and> elems (items v') = [item]" by blast
next
  assume "i < 0 \<or> (Len v \<le> i \<and> Len v \<noteq> 0) \<or> (i \<noteq> 0 \<and> Len v = 0)"
  then have "i < 0 \<or> len_v v \<le> i" and "\<not> (i = 0 \<and> len_v v = 0)"
    by (auto simp add: Len_def len_v_def len_def)
  then show "Add i item v = Some (Some ErrInvalidIndex, v)" by (rule Add_invalid)
next
  assume "\<not> (0 \<le> i \<and> i < Len v)"
  then have o: "i < 0 \<or> len_v v \<le> i" by (auto simp add: Len_def)
  show "Set_v i item v = (Some ErrInvalidIndex, v)" using o by (rule Set_v_invalid)
  show "Remove i v = Some ((0, Some ErrInvalidIndex), v)" using o by (rule Remove_invalid)
  show "Peek i v = (0, Some ErrInvalidIndex)" using o by (rule Peek_invalid)
qed

theorem index_validation_witness:
  "Len \<lparr>multiplier = 3, items = \<lparr>elems = [], capacity = 2\<rparr>\<rparr> = 0
   \<and> Add 0 11 \<lparr>multiplier = 3, items = \<lparr>elems = [], capacity = 2\<rparr>\<rparr>
       = Some (None, \<lparr>multiplier = 3, items = \<lparr>elems = [11], capacity = 2\<rparr>\<rparr>)
   \<and> Add 1 11 \<lparr>multiplier = 3, items = \<lparr>elems = [], capacity = 2\<rparr>\<rparr>
       = Some (Some ErrInvalidIndex, \<lparr>multiplier = 3, items = \<lparr>elems = [], capacity = 2\<rparr>\<rparr>)
   \<and> Set_v 0 11 \<lparr>multiplier = 3, items = \<lparr>elems = [], capacity = 2\<rparr>\<rparr>
       = (Some ErrInvalidIndex, \<lparr>multiplier = 3, items = \<lparr>elems = [], capacity = 2\<rparr>\<rparr>)
   \<and> Remove 0 \<lparr>multiplier = 3, items = \<lparr>elems = [], capacity = 2\<rparr>\<rparr>
       = Some ((0, Some ErrInvalidIndex), \<lparr>multiplier = 3, items = \<lparr>elems = [], capacity = 2\<rparr>\<rparr>)
   \<and> Peek 0 \<lparr>multiplier = 3, items = \<lparr>elems = [], capacity = 2\<rparr>\<rparr> = (0, Some ErrInvalidIndex)
   \<and> Len \<lparr>multiplier = 3, items = \<lparr>elems = [5, 6], capacity = 2\<rparr>\<rparr> = 2
   \<and> Add 2 11 \<lparr>multiplier = 3, items = \<lparr>elems = [5, 6], capacity = 2\<rparr>\<rparr>
       = Some (Some ErrInvalidIndex, \<lparr>multiplier = 3, items = \<lparr>elems = [5, 6], capacity = 2\<rparr>\<rparr>)
   \<and> Add (- 1) 11 \<lparr>multiplier = 3, items = \<lparr>elems = [5, 6], capacity = 2\<rparr>\<rparr>
       = Some (Some ErrInvalidIndex, \<lparr>multiplier = 3, items = \<lparr>elems = [5, 6], capacity = 2\<rparr>\<rparr>)
   \<and> Set_v 2 11 \<lparr>multiplier = 3, items = \<lparr>elems = [5, 6], capacity = 2\<rparr>\<rparr>
       = (Some ErrInvalidIndex, \<lparr>multiplier = 3, items = \<lparr>elems = [5, 6], capacity = 2\<rparr>\<rparr>)
   \<and> Remove (- 1) \<lparr>multiplier = 3, items = \<lparr>elems = [5, 6], capacity = 2\<rparr>\<rparr>
       = Some ((0, Some ErrInvalidIndex), \<lparr>multiplier = 3, items = \<lparr>elems = [5, 6], capacity = 2\<rparr>\<rparr>)
   \<and> Peek 2 \<lparr>multiplier = 3, items = \<lparr>elems = [5, 6], capacity = 2\<rparr>\<rparr> = (0, Some ErrInvalidIndex)"
proof -
  let ?e = "\<lparr>multiplier = 3, items = \<lparr>elems = [], capacity = 2\<rparr>\<rparr>"
  let ?v = "\<lparr>multiplier = 3, items = \<lparr>elems = [5, 6], capacity = 2\<rparr>\<rparr>"
  have le: "Len ?e = 0" by (simp add: Len_def len_v_def len_def)
  have lv: "Len ?v = 2" by (simp add: Len_def len_v_def len_def)
  have ev: "Add 0 11 ?e = Some (None, \<lparr>multiplier = 3, items = \<lparr>elems = [11], capacity = 2\<rparr>\<rparr>)"
    by code_simp
  from index_validation [of ?e 11 0, THEN conjunct1, THEN mp, OF le] obtain w where
    "Add 0 11 ?e = Some (None, w)" "elems (items w) = [11]" by blast
  with ev have 1: "Add 0 11 ?e = Some (None, \<lparr>multiplier = 3, items = \<lparr>elems = [11], capacity = 2\<rparr>\<rparr>)"
    by simp
  have 2: "Add 1 11 ?e = Some (Some ErrInvalidIndex, ?e)"
    using index_validation [of ?e 11 1] le by simp
  have 3: "Set_v 0 11 ?e = (Some ErrInvalidIndex, ?e)
         \<and> Remove 0 ?e = Some ((0, Some ErrInvalidIndex), ?e)
         \<and> Peek 0 ?e = (0, Some ErrInvalidIndex)"
    using index_validation [of ?e 11 0] le by simp
  have 4: "Add 2 11 ?v = Some (Some ErrInvalidIndex, ?v)
         \<and> Set_v 2 11 ?v = (Some ErrInvalidIndex, ?v)
         \<and> Peek 2 ?v = (0, Some ErrInvalidIndex)"
    using index_validation [of ?v 11 2] lv by simp
  have 5: "Add (- 1) 11 ?v = Some (Some ErrInvalidIndex, ?v)
         \<and> Remove (- 1) ?v = Some ((0, Some ErrInvalidIndex), ?v)"
    using index_validation [of ?v 11 "- 1"] lv by simp
  from le lv 1 2 3 4 5 show ?thesis by simp
qed

subsection \<open>C4: capacity growth\<close>




subsection \<open>C5: capacity is at least the length and never decreases\<close>

text \<open>
  C5: from every vector (a Go slice has \<open>length \<le> capacity\<close>), whatever sequence of
  calls of \<^verbatim>\<open>Add\<close>, \<^verbatim>\<open>Set\<close>, \<^verbatim>\<open>Append\<close>, \<^verbatim>\<open>AppendAll\<close>,
  \<^verbatim>\<open>Remove\<close>, \<^verbatim>\<open>RemoveIf\<close> and \<^verbatim>\<open>Clear\<close> has run, the vector it leaves
  has \<open>length \<le> capacity\<close> and a capacity not below the one it started with; as this
  holds for every sequence, it holds after each of its calls. \<^verbatim>\<open>Set\<close>,
  \<^verbatim>\<open>Remove\<close>, \<^verbatim>\<open>RemoveIf\<close> and \<^verbatim>\<open>Clear\<close> always return; \<^verbatim>\<open>Append\<close>,
  \<^verbatim>\<open>AppendAll\<close> and \<^verbatim>\<open>Add\<close> return unless they must grow and the capacity they
  then ask of \<^verbatim>\<open>make\<close> is beyond \<open>maxSliceCap\<close>, and that panic comes before any
  write to the vector, which so stays as it was. \<^verbatim>\<open>Remove\<close> and \<^verbatim>\<open>Clear\<close> leave
  the capacity as it was. The read-only methods do not write the vector (in the model
  they return no new vector); the vector that \<^verbatim>\<open>Accumulate\<close> creates has
  \<open>length \<le> capacity\<close> as well.
\<close>

theorem capacity_invariant:
  assumes "Len v \<le> Cap v"
  shows "(\<forall>v'. run ops v = Some v' \<longrightarrow> Len v' \<le> Cap v' \<and> Cap v \<le> Cap v')
       \<and> step (OpSet i a) v \<noteq> None \<and> step (OpRemove i) v \<noteq> None
       \<and> step (OpRemoveIf p) v \<noteq> None \<and> step OpClear v \<noteq> None
       \<and> (step (OpAppend a) v = None \<longleftrightarrow>
            Cap v < Len v + 1
            \<and> maxSliceCap < max (int64 (Cap v * multiplier v)) (Len v + 1))
       \<and> (step (OpAppendAll xs) v = None \<longleftrightarrow>
            Cap v < Len v + int (length xs)
            \<and> maxSliceCap < max (int64 (Cap v * multiplier v)) (Len v + int (length xs)))
       \<and> (step (OpAdd i a) v = None \<longleftrightarrow>
            0 \<le> i \<and> i < Len v \<and> Cap v < Len v + 1
            \<and> maxSliceCap < max (int64 (Cap v * multiplier v)) (Len v + 1))
       \<and> (\<exists>res v'. Remove i v = Some (res, v') \<and> Cap v' = Cap v)
       \<and> Cap (Clear v) = Cap v
       \<and> (\<forall>r. Accumulate cb v = Some r \<longrightarrow> Len r \<le> Cap r)"
proof -
  have w: "wf v" using assms by (simp add: wf_iff)
  have 1: "Len v' \<le> Cap v' \<and> Cap v \<le> Cap v'" if "run ops v = Some v'" for v'
    using run_ok [OF w that] by (simp add: wf_iff Cap_def)
  note 2 = step_total
  have 3: "step (OpAppend a) v = None \<longleftrightarrow>
            Cap v < Len v + 1 \<and> maxSliceCap < max (int64 (Cap v * multiplier v)) (Len v + 1)"
    by (simp add: Append_None [OF w] del: max.bounded_iff)
  have 4: "step (OpAppendAll xs) v = None \<longleftrightarrow>
            Cap v < Len v + int (length xs)
            \<and> maxSliceCap < max (int64 (Cap v * multiplier v)) (Len v + int (length xs))"
    by (simp add: AppendAll_def append_v_None [OF w] Cap_def Len_def del: max.bounded_iff)
  have 5: "step (OpAdd i a) v = None \<longleftrightarrow>
            0 \<le> i \<and> i < Len v \<and> Cap v < Len v + 1
            \<and> maxSliceCap < max (int64 (Cap v * multiplier v)) (Len v + 1)"
  proof (cases "0 \<le> i \<and> i < len_v v")
    case True
    then have v: "0 \<le> i" "i < len_v v" by auto
    show ?thesis
      using v by (simp add: Add_valid_None [OF w v] Cap_def Len_def del: max.bounded_iff)
  next
    case False
    have "Add i a v \<noteq> None"
    proof (cases "i = 0 \<and> len_v v = 0")
      case True
      then have "len_v v = 0" "i = 0" by auto
      with Add_empty_ok [of v a] show ?thesis by auto
    next
      case ne: False
      have "Add i a v = Some (Some ErrInvalidIndex, v)"
        using False ne by (intro Add_invalid) auto
      then show ?thesis by simp
    qed
    then show ?thesis using False by (auto simp add: Len_def)
  qed
  from step_Remove [OF w, of i]
  have 6: "\<exists>res v'. Remove i v = Some (res, v') \<and> Cap v' = Cap v"
    by (auto simp add: Cap_def cap_def)
  have 7: "Len r \<le> Cap r" if "Accumulate cb v = Some r" for r
    using Accumulate_Some(3) [OF that] by (simp add: wf_iff)
  from 1 2 3 4 5 6 7 show ?thesis by (simp add: cap_Clear del: max.bounded_iff step.simps)
qed

theorem capacity_invariant_witness:
  "Len \<lparr>multiplier = 3, items = \<lparr>elems = [], capacity = 2\<rparr>\<rparr> = 0
   \<and> Cap \<lparr>multiplier = 3, items = \<lparr>elems = [], capacity = 2\<rparr>\<rparr> = 2
   \<and> run [OpAppendAll [1, 2, 3], OpRemove 0, OpAdd 1 9, OpSet 0 7, OpRemoveIf (\<lambda>x. x = 9),
           OpAppend 4, OpClear]
          \<lparr>multiplier = 3, items = \<lparr>elems = [], capacity = 2\<rparr>\<rparr>
       = Some \<lparr>multiplier = 3, items = \<lparr>elems = [], capacity = 6\<rparr>\<rparr>
   \<and> Len \<lparr>multiplier = 3, items = \<lparr>elems = [], capacity = 6\<rparr>\<rparr>
       \<le> Cap \<lparr>multiplier = 3, items = \<lparr>elems = [], capacity = 6\<rparr>\<rparr>
   \<and> Cap \<lparr>multiplier = 3, items = \<lparr>elems = [], capacity = 2\<rparr>\<rparr>
       \<le> Cap \<lparr>multiplier = 3, items = \<lparr>elems = [], capacity = 6\<rparr>\<rparr>
   \<and> step (OpAppendAll [1, 2, 3]) \<lparr>multiplier = 2 ^ 60, items = \<lparr>elems = [], capacity = 2\<rparr>\<rparr> = None
   \<and> Accumulate (+) \<lparr>multiplier = 2, items = \<lparr>elems = [1, 2, 3, 4, 5], capacity = 10\<rparr>\<rparr>
       = Some \<lparr>multiplier = 2, items = \<lparr>elems = [1, 3, 6, 10, 15], capacity = 10\<rparr>\<rparr>
   \<and> Len \<lparr>multiplier = 2, items = \<lparr>elems = [1, 3, 6, 10, 15], capacity = 10\<rparr>\<rparr>
       \<le> Cap \<lparr>multiplier = 2, items = \<lparr>elems = [1, 3, 6, 10, 15], capacity = 10\<rparr>\<rparr>"
proof -
  let ?v = "\<lparr>multiplier = 3, items = \<lparr>elems = [], capacity = 2\<rparr>\<rparr>"
  let ?w = "\<lparr>multiplier = 3, items = \<lparr>elems = [], capacity = 6\<rparr>\<rparr>"
  let ?p = "\<lparr>multiplier = 2 ^ 60, items = \<lparr>elems = [], capacity = 2\<rparr>\<rparr>"
  let ?s = "\<lparr>multiplier = 2, items = \<lparr>elems = [1, 2, 3, 4, 5], capacity = 10\<rparr>\<rparr>"
  let ?t = "\<lparr>multiplier = 2, items = \<lparr>elems = [1, 3, 6, 10, 15], capacity = 10\<rparr>\<rparr>"
  let ?ops = "[OpAppendAll [1, 2, 3], OpRemove 0, OpAdd 1 9, OpSet 0 7, OpRemoveIf (\<lambda>x. x = 9),
           OpAppend 4, OpClear]"
  have l: "Len ?v = 0" and lp: "Len ?p = 0" and ls: "Len ?s = 5"
    by (simp_all add: Len_def len_v_def len_def)
  have c: "Cap ?v = 2" and cp: "Cap ?p = 2" and cs: "Cap ?s = 10" by (simp_all add: Cap_def cap_def)
  have h: "Len ?v \<le> Cap ?v" and hp: "Len ?p \<le> Cap ?p" and hs: "Len ?s \<le> Cap ?s"
    using l c lp cp ls cs by simp_all
  have ip: "int64 (2 * 2 ^ 60) = 2 ^ 61" by (simp add: int64_def)
  have r: "run ?ops ?v = Some ?w" by (rule run_example)
  have ex: "Accumulate (+) ?s = Some ?t" by (rule Accumulate_example)
  from capacity_invariant [OF h, of ?ops, THEN conjunct1] r
  have 1: "Len ?w \<le> Cap ?w \<and> Cap ?v \<le> Cap ?w" by simp
  note P = capacity_invariant [OF hp, where xs = "[1, 2, 3]"]
  have 2: "step (OpAppendAll [1, 2, 3]) ?p = None"
    using P [THEN conjunct2, THEN conjunct2, THEN conjunct2, THEN conjunct2, THEN conjunct2,
        THEN conjunct2, THEN conjunct1] lp cp ip
    by (simp add: maxSliceCap_eq del: step.simps)
  note S = capacity_invariant [OF hs, where cb = "(+)"]
  have 3: "Len ?t \<le> Cap ?t"
    using S [THEN conjunct2, THEN conjunct2, THEN conjunct2, THEN conjunct2, THEN conjunct2,
        THEN conjunct2, THEN conjunct2, THEN conjunct2, THEN conjunct2, THEN conjunct2] ex
    by blast
  from l c r 1 2 ex 3 show ?thesis by (simp del: step.simps)
qed

subsection \<open>C6: Any and All\<close>

text \<open>
  C6: on an empty vector \<^verbatim>\<open>Any\<close> and \<^verbatim>\<open>All\<close> both return \<^verbatim>\<open>false\<close>, whatever
  the callback (and never call it); on a non-empty vector \<^verbatim>\<open>Any\<close> returns true iff
  some element satisfies the predicate and \<^verbatim>\<open>All\<close> iff every element does. Both call
  the predicate in index order and stop at the first element that decides the answer:
  the items a recording predicate was called on are those up to and including the first
  one that satisfies it (\<^verbatim>\<open>Any\<close>), or the first one that fails it (\<^verbatim>\<open>All\<close>).
\<close>

theorem Any_All_semantics:
  "(elems (items v) = [] \<longrightarrow> Any cb v u = (False, u) \<and> All_v cb v u = (False, u))
   \<and> (elems (items v) \<noteq> [] \<longrightarrow>
        fst (Any (logged p) v []) = (\<exists>x\<in>set (elems (items v)). p x)
      \<and> fst (All_v (logged p) v []) = (\<forall>x\<in>set (elems (items v)). p x))
   \<and> snd (Any (logged p) v []) = upto_first p (elems (items v))
   \<and> snd (All_v (logged p) v []) = upto_first (\<lambda>x. \<not> p x) (elems (items v))"
proof -
  have a: "Any cb v u = (False, u) \<and> All_v cb v u = (False, u)" if "elems (items v) = []"
    using that Any_empty [of v cb u] All_v_empty [of v cb u] by simp
  have b: "fst (Any (logged p) v []) = (\<exists>x\<in>set (elems (items v)). p x)"
    unfolding Any_logged by simp
  have c: "fst (All_v (logged p) v []) = (\<forall>x\<in>set (elems (items v)). p x)"
    if "elems (items v) \<noteq> []"
    unfolding All_v_logged using that by simp
  have d: "snd (Any (logged p) v []) = upto_first p (elems (items v))"
    unfolding Any_logged by simp
  have e: "snd (All_v (logged p) v []) = upto_first (\<lambda>x. \<not> p x) (elems (items v))"
    unfolding All_v_logged by simp
  from a b c d e show ?thesis by blast
qed

theorem Any_All_semantics_witness:
  "Any (logged (\<lambda>x. True)) \<lparr>multiplier = 2, items = \<lparr>elems = [], capacity = 10\<rparr>\<rparr> [] = (False, [])
   \<and> All_v (logged (\<lambda>x. True)) \<lparr>multiplier = 2, items = \<lparr>elems = [], capacity = 10\<rparr>\<rparr> [] = (False, [])
   \<and> Any (logged (\<lambda>x. x = 3)) \<lparr>multiplier = 2, items = \<lparr>elems = [1, 2, 3, 4], capacity = 10\<rparr>\<rparr> []
       = (True, [1, 2, 3])
   \<and> All_v (logged (\<lambda>x. x = 3)) \<lparr>multiplier = 2, items = \<lparr>elems = [1, 2, 3, 4], capacity = 10\<rparr>\<rparr> []
       = (False, [1])"
proof -
  let ?v = "\<lparr>multiplier = 2, items = \<lparr>elems = [1, 2, 3, 4], capacity = 10\<rparr>\<rparr>"
  let ?e = "\<lparr>multiplier = 2, items = \<lparr>elems = [], capacity = 10\<rparr>\<rparr>"
  have e: "elems (items ?e) = []" and n: "elems (items ?v) \<noteq> []" by simp_all
  note E = Any_All_semantics [of ?e "logged (\<lambda>x. True)" "[]" "\<lambda>x. True"]
  note a = E [THEN conjunct1, THEN mp, OF e]
  have a1: "Any (logged (\<lambda>x. True)) ?e [] = (False, [])"
    by (rule a [THEN conjunct1])
  have a2: "All_v (logged (\<lambda>x. True)) ?e [] = (False, [])"
    by (rule a [THEN conjunct2])
  note V = Any_All_semantics [of ?v "logged (\<lambda>x. True)" "[]" "\<lambda>x. x = 3"]
  have f: "fst (Any (logged (\<lambda>x. x = 3)) ?v []) = (\<exists>x\<in>set (elems (items ?v)). x = 3)
         \<and> fst (All_v (logged (\<lambda>x. x = 3)) ?v []) = (\<forall>x\<in>set (elems (items ?v)). x = 3)"
    by (rule V [THEN conjunct2, THEN conjunct1, THEN mp, OF n])
  have s1: "snd (Any (logged (\<lambda>x. x = 3)) ?v []) = upto_first (\<lambda>x. x = 3) (elems (items ?v))"
    by (rule V [THEN conjunct2, THEN conjunct2, THEN conjunct1])
  have s2: "snd (All_v (logged (\<lambda>x. x = 3)) ?v []) = upto_first (\<lambda>x. \<not> x = 3) (elems (items ?v))"
    by (rule V [THEN conjunct2, THEN conjunct2, THEN conjunct2])
  have b1: "Any (logged (\<lambda>x. x = 3)) ?v [] = (True, [1, 2, 3])"
    using f [THEN conjunct1] s1 by (simp add: prod_eq_iff upto_first_def)
  have b2: "All_v (logged (\<lambda>x. x = 3)) ?v [] = (False, [1])"
    using f [THEN conjunct2] s2 by (simp add: prod_eq_iff upto_first_def)
  from a1 a2 b1 b2 show ?thesis by simp
qed

subsection \<open>C7: RemoveIf\<close>

text \<open>
  C7: for every vector and every predicate \<^verbatim>\<open>RemoveIf\<close> returns (no read of its loop
  is out of range), the elements left are those that do not satisfy the predicate, in
  their former order, and when no element satisfies it, as on an empty vector, the
  vector is left exactly as it was.
\<close>

theorem RemoveIf_filters:
  "\<exists>v'. RemoveIf cb v = Some v'
      \<and> elems (items v') = filter (\<lambda>x. \<not> cb x) (elems (items v))
      \<and> ((\<forall>x\<in>set (elems (items v)). \<not> cb x) \<longrightarrow> v' = v)"
proof -
  from RemoveIf_result [of cb v] obtain v' where
    r: "RemoveIf cb v = Some v'"
    and e: "elems (items v') = filter (\<lambda>x. \<not> cb x) (elems (items v))"
    by blast
  have "v' = v" if "\<forall>x\<in>set (elems (items v)). \<not> cb x"
    using RemoveIf_noop [OF that] r by simp
  with r e show ?thesis by blast
qed

theorem RemoveIf_filters_witness:
  "elems (items (the (RemoveIf (\<lambda>x. x < 3) \<lparr>multiplier = 2, items = \<lparr>elems = [1, 2, 3, 4], capacity = 10\<rparr>\<rparr>)))
     = [3, 4]
   \<and> RemoveIf (\<lambda>x. 4 < x) \<lparr>multiplier = 2, items = \<lparr>elems = [1, 2, 3, 4], capacity = 10\<rparr>\<rparr>
     = Some \<lparr>multiplier = 2, items = \<lparr>elems = [1, 2, 3, 4], capacity = 10\<rparr>\<rparr>
   \<and> RemoveIf (\<lambda>x. True) \<lparr>multiplier = 2, items = \<lparr>elems = [], capacity = 10\<rparr>\<rparr>
     = Some \<lparr>multiplier = 2, items = \<lparr>elems = [], capacity = 10\<rparr>\<rparr>"
proof -
  let ?v = "\<lparr>multiplier = 2, items = \<lparr>elems = [1, 2, 3, 4], capacity = 10\<rparr>\<rparr>"
  let ?e = "\<lparr>multiplier = 2, items = \<lparr>elems = [], capacity = 10\<rparr>\<rparr>"
  from RemoveIf_filters [of "\<lambda>x. x < 3" ?v]
  have a: "elems (items (the (RemoveIf (\<lambda>x. x < 3) ?v))) = [3, 4]" by auto
  have "\<forall>x\<in>set (elems (items ?v)). \<not> 4 < x" by simp
  with RemoveIf_filters [of "\<lambda>x. 4 < x" ?v]
  have b: "RemoveIf (\<lambda>x. 4 < x) ?v = Some ?v" by auto
  have "\<forall>x\<in>set (elems (items ?e)). \<not> True" by simp
  with RemoveIf_filters [of "\<lambda>x. True" ?e]
  have c: "RemoveIf (\<lambda>x. True) ?e = Some ?e" by auto
  from a b c show ?thesis by simp
qed

subsection \<open>C8: Accumulate\<close>

text \<open>
  C8: \<^verbatim>\<open>Accumulate\<close> returns a new vector \<open>r\<close> of the length of \<open>v\<close>, with
  \<open>r[0] = v[0]\<close> and \<open>r[i] = combine(r[i-1], v[i])\<close> for every \<open>1 \<le> i < length\<close>;
  on an empty vector the result is empty and on a one-element vector it holds that
  element. \<open>v\<close> is only read: \<^verbatim>\<open>Accumulate\<close> writes to \<open>r\<close> alone, and the model
  returns \<open>r\<close> alone. The result starts as \<^verbatim>\<open>New()\<close> and doubles its capacity as
  it grows, so \<^verbatim>\<open>Accumulate\<close> returns for every vector of up to \<open>maxSliceCap / 2\<close>
  (\<open>2 ^ 44\<close>) items, and whatever it returns has the properties above.
\<close>

theorem Accumulate_running_fold:
  "(2 * Len v \<le> maxSliceCap \<longrightarrow> (\<exists>r. Accumulate cb v = Some r))
   \<and> (\<forall>r. Accumulate cb v = Some r \<longrightarrow>
          Len r = Len v
        \<and> (elems (items v) \<noteq> [] \<longrightarrow> elems (items r) ! 0 = elems (items v) ! 0)
        \<and> (\<forall>i. 1 \<le> i \<and> i < length (elems (items v)) \<longrightarrow>
               elems (items r) ! i = cb (elems (items r) ! (i - 1)) (elems (items v) ! i))
        \<and> (elems (items v) = [] \<longrightarrow> elems (items r) = [])
        \<and> (\<forall>x. elems (items v) = [x] \<longrightarrow> elems (items r) = [x]))"
proof -
  have t: "\<exists>r. Accumulate cb v = Some r" if "2 * Len v \<le> maxSliceCap"
    using that by (rule Accumulate_total)
  have p: "Len r = Len v
        \<and> (elems (items v) \<noteq> [] \<longrightarrow> elems (items r) ! 0 = elems (items v) ! 0)
        \<and> (\<forall>i. 1 \<le> i \<and> i < length (elems (items v)) \<longrightarrow>
               elems (items r) ! i = cb (elems (items r) ! (i - 1)) (elems (items v) ! i))
        \<and> (elems (items v) = [] \<longrightarrow> elems (items r) = [])
        \<and> (\<forall>x. elems (items v) = [x] \<longrightarrow> elems (items r) = [x])"
    if a: "Accumulate cb v = Some r" for r
  proof -
    note A = Accumulate_Some [OF a]
    have l: "length (elems (items r)) = length (elems (items v))" by (rule A(1))
    have 1: "Len r = Len v" using l by (simp add: Len_def len_v_def len_def)
    have 2: "elems (items r) ! 0 = elems (items v) ! 0" if "elems (items v) \<noteq> []"
      using A(2) [OF that] by (simp add: scan_ok_def)
    have 3: "elems (items r) ! i = cb (elems (items r) ! (i - 1)) (elems (items v) ! i)"
      if "1 \<le> i \<and> i < length (elems (items v))" for i
    proof -
      have "elems (items v) \<noteq> []" using that by auto
      from A(2) [OF this] show ?thesis using that l by (simp add: scan_ok_def)
    qed
    have 4: "elems (items r) = []" if "elems (items v) = []"
      using l that by simp
    have 5: "elems (items r) = [x]" if "elems (items v) = [x]" for x
    proof -
      have "length (elems (items r)) = 1" using l that by simp
      moreover have "elems (items r) ! 0 = x" using 2 that by simp
      ultimately show ?thesis by (cases "elems (items r)") auto
    qed
    from 1 2 3 4 5 show ?thesis by blast
  qed
  from t p show ?thesis by blast
qed

theorem Accumulate_running_fold_witness:
  "Len \<lparr>multiplier = 2, items = \<lparr>elems = [1, 2, 3, 4, 5], capacity = 10\<rparr>\<rparr> = 5
   \<and> Accumulate (+) \<lparr>multiplier = 2, items = \<lparr>elems = [1, 2, 3, 4, 5], capacity = 10\<rparr>\<rparr>
     = Some \<lparr>multiplier = 2, items = \<lparr>elems = [1, 3, 6, 10, 15], capacity = 10\<rparr>\<rparr>
   \<and> [1, 3, 6, 10, 15] ! 0 = [1, 2, 3, 4, 5 :: elem] ! 0
   \<and> [1, 3, 6, 10, 15] ! 4 = [1, 3, 6, 10, 15] ! (4 - 1) + [1, 2, 3, 4, 5 :: elem] ! 4
   \<and> map_option (elems \<circ> items) (Accumulate (+) \<lparr>multiplier = 3, items = \<lparr>elems = [], capacity = 2\<rparr>\<rparr>)
       = Some []
   \<and> map_option (elems \<circ> items) (Accumulate (+) \<lparr>multiplier = 3, items = \<lparr>elems = [9], capacity = 2\<rparr>\<rparr>)
       = Some [9]"
proof -
  let ?v = "\<lparr>multiplier = 2, items = \<lparr>elems = [1, 2, 3, 4, 5], capacity = 10\<rparr>\<rparr>"
  let ?r = "\<lparr>multiplier = 2, items = \<lparr>elems = [1, 3, 6, 10, 15], capacity = 10\<rparr>\<rparr>"
  let ?e = "\<lparr>multiplier = 3, items = \<lparr>elems = [], capacity = 2\<rparr>\<rparr>"
  let ?s = "\<lparr>multiplier = 3, items = \<lparr>elems = [9], capacity = 2\<rparr>\<rparr>"
  have lv: "Len ?v = 5" and le: "Len ?e = 0" and ls: "Len ?s = 1"
    by (simp_all add: Len_def len_v_def len_def)
  have bv: "2 * Len ?v \<le> maxSliceCap" and be: "2 * Len ?e \<le> maxSliceCap"
    and bs: "2 * Len ?s \<le> maxSliceCap"
    using lv le ls by (simp_all add: maxSliceCap_eq)
  have ex: "Accumulate (+) ?v = Some ?r" by (rule Accumulate_example)
  note V = Accumulate_running_fold [of ?v "(+)"]
  note E = Accumulate_running_fold [of ?e "(+)"]
  note S = Accumulate_running_fold [of ?s "(+)"]
  have ne: "elems (items ?v) \<noteq> []" by simp
  have i4: "1 \<le> (4::nat) \<and> 4 < length (elems (items ?v))" by simp
  from V [THEN conjunct2] ex ne i4
  have a: "elems (items ?r) ! 0 = elems (items ?v) ! 0"
    and b: "elems (items ?r) ! 4 = elems (items ?r) ! (4 - 1) + elems (items ?v) ! 4"
    by blast+
  from E [THEN conjunct1, THEN mp, OF be] obtain re where re: "Accumulate (+) ?e = Some re"
    by blast
  have "elems (items ?e) = []" by simp
  with E [THEN conjunct2] re have "elems (items re) = []" by blast
  with re have c: "map_option (elems \<circ> items) (Accumulate (+) ?e) = Some []" by simp
  from S [THEN conjunct1, THEN mp, OF bs] obtain rs where rs: "Accumulate (+) ?s = Some rs"
    by blast
  have "elems (items ?s) = [9]" by simp
  with S [THEN conjunct2] rs have "elems (items rs) = [9]" by blast
  with rs have d: "map_option (elems \<circ> items) (Accumulate (+) ?s) = Some [9]" by simp
  from lv ex a b c d show ?thesis by simp
qed

subsection \<open>C9: InnerProduct\<close>

text \<open>
  C9: \<^verbatim>\<open>InnerProduct\<close> returns the size-mismatch error iff the two lengths differ
  and no error iff they are equal; its value is then the sum over all indices \<open>i\<close> of
  \<open>v[i] * other[i]\<close>, in the arithmetic of Go's \<^verbatim>\<open>int\<close>: \<open>0\<close> for two empty
  vectors and \<open>20\<close> for \<open>[1, 2, 3]\<close> and \<open>[2, 3, 4]\<close>.
\<close>

theorem InnerProduct_sum:
  "(snd (InnerProduct v other) = Some ErrSizeDiffers \<longleftrightarrow> Len v \<noteq> Len other)
   \<and> (snd (InnerProduct v other) = None \<longleftrightarrow> Len v = Len other)
   \<and> (Len v = Len other \<longrightarrow>
        fst (InnerProduct v other)
          = (\<Sum>i<length (elems (items v)). elems (items v) ! i * elems (items other) ! i))
   \<and> (elems (items v) = [] \<and> elems (items other) = [] \<longrightarrow> InnerProduct v other = (0, None))
   \<and> (elems (items v) = [1, 2, 3] \<and> elems (items other) = [2, 3, 4]
        \<longrightarrow> InnerProduct v other = (20, None))"
proof -
  have d: "InnerProduct v other = (0, Some ErrSizeDiffers)" if "Len v \<noteq> Len other"
    using that by (intro InnerProduct_differs) (simp add: Len_def len_v_def len_def)
  have s: "InnerProduct v other =
     (\<Sum>i<length (elems (items v)). elems (items v) ! i * elems (items other) ! i, None)"
    if "Len v = Len other"
    using that by (intro InnerProduct_same) (simp add: Len_def len_v_def len_def)
  have e: "InnerProduct v other = (0, None)"
    if "elems (items v) = [] \<and> elems (items other) = []"
    using that by (simp add: InnerProduct_same)
  have t: "InnerProduct v other = (20, None)"
    if "elems (items v) = [1, 2, 3] \<and> elems (items other) = [2, 3, 4]"
    using that by (simp add: InnerProduct_same lessThan_Suc numeral_3_eq_3)
  show ?thesis
    using d s e t by (cases "Len v = Len other") auto
qed

theorem InnerProduct_sum_witness:
  "InnerProduct \<lparr>multiplier = 2, items = \<lparr>elems = [1, 2, 3], capacity = 10\<rparr>\<rparr>
                \<lparr>multiplier = 2, items = \<lparr>elems = [2, 3, 4], capacity = 10\<rparr>\<rparr> = (20, None)
   \<and> InnerProduct \<lparr>multiplier = 2, items = \<lparr>elems = [], capacity = 10\<rparr>\<rparr>
                  \<lparr>multiplier = 2, items = \<lparr>elems = [], capacity = 10\<rparr>\<rparr> = (0, None)
   \<and> snd (InnerProduct \<lparr>multiplier = 2, items = \<lparr>elems = [], capacity = 10\<rparr>\<rparr>
                       \<lparr>multiplier = 2, items = \<lparr>elems = [2, 3, 4], capacity = 10\<rparr>\<rparr>)
       = Some ErrSizeDiffers"
proof -
  let ?a = "\<lparr>multiplier = 2, items = \<lparr>elems = [1, 2, 3], capacity = 10\<rparr>\<rparr>"
  let ?b = "\<lparr>multiplier = 2, items = \<lparr>elems = [2, 3, 4], capacity = 10\<rparr>\<rparr>"
  let ?e = "\<lparr>multiplier = 2, items = \<lparr>elems = [], capacity = 10\<rparr>\<rparr>"
  have ab: "elems (items ?a) = [1, 2, 3] \<and> elems (items ?b) = [2, 3, 4]" by simp
  have ee: "elems (items ?e) = [] \<and> elems (items ?e) = []" by simp
  have eb: "Len ?e \<noteq> Len ?b" by (simp add: Len_def len_v_def len_def)
  from InnerProduct_sum [of ?a ?b] ab have 1: "InnerProduct ?a ?b = (20, None)" by blast
  from InnerProduct_sum [of ?e ?e] ee have 2: "InnerProduct ?e ?e = (0, None)" by blast
  from InnerProduct_sum [of ?e ?b] eb have 3: "snd (InnerProduct ?e ?b) = Some ErrSizeDiffers"
    by blast
  from 1 2 3 show ?thesis by simp
qed

subsection \<open>C10: a failed call changes nothing\<close>

text \<open>
  C10: whenever \<^verbatim>\<open>Add\<close>, \<^verbatim>\<open>Set\<close> or \<^verbatim>\<open>Remove\<close> returns the invalid-index
  error, the vector after the call is the vector before it: its elements, its length,
  its capacity and its multiplier. (\<^verbatim>\<open>Remove\<close> then returns the value \<open>0\<close>.)
\<close>

theorem failed_call_keeps_state:
  "(\<forall>v'. Add i item v = Some (Some ErrInvalidIndex, v') \<longrightarrow> v' = v)
   \<and> (fst (Set_v i item v) = Some ErrInvalidIndex \<longrightarrow> snd (Set_v i item v) = v)
   \<and> (\<forall>r v'. Remove i v = Some ((r, Some ErrInvalidIndex), v') \<longrightarrow> v' = v \<and> r = 0)"
proof -
  have a: "v' = v" if "Add i item v = Some (Some ErrInvalidIndex, v')" for v'
  proof (cases "i = 0 \<and> len_v v = 0")
    case True
    then have "len_v v = 0" "i = 0" by auto
    with that Add_empty [of v item] show ?thesis by (auto split: bind_splits)
  next
    case ne: False
    show ?thesis
    proof (cases "0 \<le> i \<and> i < len_v v")
      case True
      then have "0 \<le> i" "i < len_v v" by auto
      from Add_valid_Some(1) [OF this that] show ?thesis by simp
    next
      case False
      then have "Add i item v = Some (Some ErrInvalidIndex, v)"
        using ne by (intro Add_invalid) auto
      with that show ?thesis by simp
    qed
  qed
  have s: "snd (Set_v i item v) = v" if "fst (Set_v i item v) = Some ErrInvalidIndex"
    using that by (simp add: Set_v_def split: option.splits)
  have r: "v' = v \<and> r = 0" if "Remove i v = Some ((r, Some ErrInvalidIndex), v')" for r v'
  proof (cases "0 \<le> i \<and> i < len_v v")
    case True
    then have "0 \<le> i" "i < len_v v" by auto
    from Remove_valid [OF this] that show ?thesis by auto
  next
    case False
    then have "Remove i v = Some ((0, Some ErrInvalidIndex), v)"
      by (intro Remove_invalid) auto
    with that show ?thesis by simp
  qed
  from a s r show ?thesis by blast
qed

theorem failed_call_keeps_state_witness:
  "Add 5 7 \<lparr>multiplier = 2, items = \<lparr>elems = [1], capacity = 10\<rparr>\<rparr>
       = Some (Some ErrInvalidIndex, \<lparr>multiplier = 2, items = \<lparr>elems = [1], capacity = 10\<rparr>\<rparr>)
   \<and> fst (Set_v 5 7 \<lparr>multiplier = 2, items = \<lparr>elems = [1], capacity = 10\<rparr>\<rparr>) = Some ErrInvalidIndex
   \<and> snd (Set_v 5 7 \<lparr>multiplier = 2, items = \<lparr>elems = [1], capacity = 10\<rparr>\<rparr>)
       = \<lparr>multiplier = 2, items = \<lparr>elems = [1], capacity = 10\<rparr>\<rparr>
   \<and> Remove 5 \<lparr>multiplier = 2, items = \<lparr>elems = [1], capacity = 10\<rparr>\<rparr>
       = Some ((0, Some ErrInvalidIndex), \<lparr>multiplier = 2, items = \<lparr>elems = [1], capacity = 10\<rparr>\<rparr>)"
proof -
  let ?v = "\<lparr>multiplier = 2, items = \<lparr>elems = [1], capacity = 10\<rparr>\<rparr>"
  have "\<exists>w. Add 5 7 ?v = Some (Some ErrInvalidIndex, w)"
    by (simp add: Add_def checkIndex_def len_v_def len_def)
  then obtain w where a: "Add 5 7 ?v = Some (Some ErrInvalidIndex, w)" by blast
  have s: "fst (Set_v 5 7 ?v) = Some ErrInvalidIndex"
    by (simp add: Set_v_def checkIndex_def len_v_def len_def)
  have "\<exists>r v'. Remove 5 ?v = Some ((r, Some ErrInvalidIndex), v')"
    by (simp add: Remove_def checkIndex_def len_v_def len_def)
  then obtain r v' where r: "Remove 5 ?v = Some ((r, Some ErrInvalidIndex), v')" by blast
  from failed_call_keeps_state [of 5 7 ?v] a s r
  have "w = ?v" "snd (Set_v 5 7 ?v) = ?v" "v' = ?v \<and> r = 0" by blast+
  with a s r show ?thesis by simp
qed

end
